theory Spec2Isabelle
  imports Main "HOL-Library.AList"
begin

section \<open>Go values used by the restore package\<close>

text \<open>
  Decoded JSON as \<open>encoding/json\<close> hands it to the package: an \<open>interface{}\<close> that is
  \<open>nil\<close>, a bool, a number, a string, a \<open>[]interface{}\<close> or a \<open>map[string]interface{}\<close>.
  A map is an association list read with \<open>map_of\<close>; the package never ranges over one.
\<close>

datatype json =
    JNull
  | JBool bool
  | JNum string
  | JStr string
  | JArr "json list"
  | JObj "(string \<times> json) list"

type_synonym jmap = "(string \<times> json) list"

type_synonym bytes = string

text \<open>\<open>m[k]\<close> on a \<open>map[string]interface{}\<close>: the zero value \<open>nil\<close> for a missing key.\<close>

definition mapIndex :: "jmap \<Rightarrow> string \<Rightarrow> json" where
  "mapIndex m k = (case map_of m k of None \<Rightarrow> JNull | Some v \<Rightarrow> v)"

text \<open>
  The comma-ok type assertions \<open>v.(string)\<close>, \<open>v.(map[string]interface{})\<close> and
  \<open>v.([]interface{})\<close>; \<open>None\<close> is \<open>ok = false\<close>. The one-result form of the source
  panics where these give \<open>None\<close>.
\<close>

fun assertString :: "json \<Rightarrow> string option" where
  "assertString (JStr s) = Some s"
| "assertString _ = None"

fun assertMap :: "json \<Rightarrow> jmap option" where
  "assertMap (JObj m) = Some m"
| "assertMap _ = None"

fun assertSlice :: "json \<Rightarrow> json list option" where
  "assertSlice (JArr xs) = Some xs"
| "assertSlice _ = None"

text \<open>\<open>s, _ := v.(string)\<close>: the zero value on failure.\<close>

definition stringOrEmpty :: "json \<Rightarrow> string" where
  "stringOrEmpty v = (case assertString v of None \<Rightarrow> [] | Some s \<Rightarrow> s)"

subsection \<open>Errors and panics\<close>

text \<open>
  An \<open>error\<close> value is known by its message, except for the two classes the package
  tests for: \<open>apierrors.IsNotFound\<close> and \<open>os.IsNotExist\<close>. \<open>Aggregate\<close> is the composite
  built by \<open>util.ErrList\<close>.
\<close>

datatype error =
    ErrorString string
  | StatusNotFound string
  | PathNotExist string
  | Aggregate "error list"

fun errorMsg :: "error \<Rightarrow> string" where
  "errorMsg (ErrorString s) = s"
| "errorMsg (StatusNotFound s) = s"
| "errorMsg (PathNotExist s) = s"
| "errorMsg (Aggregate es) = concat (map errorMsg es)"

fun IsNotFound :: "error \<Rightarrow> bool" where
  "IsNotFound (StatusNotFound _) = True"
| "IsNotFound _ = False"

fun IsNotExist :: "error \<Rightarrow> bool" where
  "IsNotExist (PathNotExist _) = True"
| "IsNotExist _ = False"

text \<open>\<open>fmt.Errorf(prefix + "%v", err)\<close> and \<open>errors.New(a.Error() + b.Error())\<close>.\<close>

definition Errorf :: "string \<Rightarrow> error \<Rightarrow> error" where
  "Errorf prefix e = ErrorString (prefix @ errorMsg e)"

definition errorsNew2 :: "error \<Rightarrow> error \<Rightarrow> error" where
  "errorsNew2 a b = ErrorString (errorMsg a @ errorMsg b)"

datatype panic =
    TypeAssertionFailed
  | IndexOutOfRange
  | NilDereference
  | PanicError error

text \<open>
  The three ways a Go call ends: it returns normally, it returns a non-nil \<open>error\<close>,
  or it panics. The package has no \<open>recover\<close>, so a panic unwinds every caller.
\<close>

datatype 'a result = Ok 'a | Error error | Panic panic

subsection \<open>Strings and paths\<close>

text \<open>\<open>strings.Split(s, sep)\<close> for a one-character separator.\<close>

fun splitOn :: "char \<Rightarrow> string \<Rightarrow> string list" where
  "splitOn c [] = [[]]"
| "splitOn c (x # xs) =
     (if x = c then [] # splitOn c xs
      else (case splitOn c xs of [] \<Rightarrow> [[x]] | y # ys \<Rightarrow> (x # y) # ys))"

text \<open>\<open>strings.SplitN(s, sep, 2)\<close> for a one-character separator.\<close>

definition SplitN2 :: "char \<Rightarrow> string \<Rightarrow> string list" where
  "SplitN2 c s =
     (if c \<in> set s then [takeWhile (\<lambda>x. x \<noteq> c) s, tl (dropWhile (\<lambda>x. x \<noteq> c) s)]
      else [s])"

definition HasSuffix :: "string \<Rightarrow> string \<Rightarrow> bool" where
  "HasSuffix s suffix =
     (length suffix \<le> length s \<and> drop (length s - length suffix) s = suffix)"

definition TrimSuffix :: "string \<Rightarrow> string \<Rightarrow> string" where
  "TrimSuffix s suffix =
     (if HasSuffix s suffix then take (length s - length suffix) s else s)"

fun joinWith :: "string \<Rightarrow> string list \<Rightarrow> string" where
  "joinWith sep [] = []"
| "joinWith sep [x] = x"
| "joinWith sep (x # y # ys) = x @ sep @ joinWith sep (y # ys)"

text \<open>
  \<open>path.Clean\<close> (and \<open>filepath.Clean\<close> on Unix), element by element: empty elements
  and \<open>.\<close> are dropped; \<open>..\<close> removes the element before it when there is one that is
  not itself \<open>..\<close>, is dropped at the root, and is kept otherwise. The kept elements
  are held in reverse.
\<close>

fun cleanElems :: "bool \<Rightarrow> string list \<Rightarrow> string list \<Rightarrow> string list" where
  "cleanElems rooted acc [] = rev acc"
| "cleanElems rooted acc (e # es) =
     (if e = [] \<or> e = ''.'' then cleanElems rooted acc es
      else if e = ''..'' then
        (case acc of
           [] \<Rightarrow> if rooted then cleanElems rooted [] es else cleanElems rooted [e] es
         | a # acc' \<Rightarrow>
             if a = ''..'' then cleanElems rooted (e # acc) es
             else cleanElems rooted acc' es)
      else cleanElems rooted (e # acc) es)"

definition Clean :: "string \<Rightarrow> string" where
  "Clean p =
     (if p = [] then ''.''
      else
        let rooted = (hd p = CHR ''/'');
            out = joinWith ''/'' (cleanElems rooted [] (splitOn (CHR ''/'') p))
        in if rooted then CHR ''/'' # out
           else if out = [] then ''.'' else out)"

text \<open>
  \<open>path.Join\<close> and \<open>filepath.Join\<close>: leading empty elements are ignored, the rest is
  joined with slashes and cleaned; no non-empty element gives the empty string.
\<close>

definition Join :: "string list \<Rightarrow> string" where
  "Join elem =
     (case dropWhile (\<lambda>e. e = []) elem of
        [] \<Rightarrow> []
      | es \<Rightarrow> Clean (joinWith ''/'' es))"

subsection \<open>Group, version, resource and kind\<close>

record gvr =
  Group :: string
  Version :: string
  Resource :: string

record groupVersionKind =
  kindGroup :: string
  kindVersion :: string
  Kind :: string

text \<open>\<open>GroupVersionResource.String\<close> of apimachinery.\<close>

definition gvrString :: "gvr \<Rightarrow> string" where
  "gvrString g = Group g @ ''/'' @ Version g @ '', Resource='' @ Resource g"

text \<open>
  \<open>schema.ParseGroupVersion\<close>: the empty string and \<open>/\<close> give the empty pair, no
  slash gives a version of the core group, one slash splits, more is an error.
\<close>

definition ParseGroupVersion :: "string \<Rightarrow> error + (string \<times> string)" where
  "ParseGroupVersion gv =
     (if gv = [] \<or> gv = ''/'' then Inr ([], [])
      else
        (case splitOn (CHR ''/'') gv of
           [v] \<Rightarrow> Inr ([], v)
         | [g, v] \<Rightarrow> Inr (g, v)
         | _ \<Rightarrow> Inl (ErrorString (''unexpected GroupVersion string: '' @ gv))))"

text \<open>\<open>schema.ParseGroupResource\<close> followed by \<open>WithVersion\<close>.\<close>

definition ParseGroupResource :: "string \<Rightarrow> string \<times> string" where
  "ParseGroupResource gr =
     (if CHR ''.'' \<in> set gr
      then (tl (dropWhile (\<lambda>x. x \<noteq> CHR ''.'') gr), takeWhile (\<lambda>x. x \<noteq> CHR ''.'') gr)
      else ([], gr))"

text \<open>
  \<open>getGVR\<close> parses a directory name of the archive. \<open>gvkParts[1]\<close> is an unchecked
  index: a name without \<open>#\<close> panics.
\<close>

definition getGVR :: "string \<Rightarrow> gvr result" where
  "getGVR resourceGVK =
     (let gvkParts = splitOn (CHR ''#'') resourceGVK in
      if length gvkParts < 2 then Panic IndexOutOfRange
      else
        let version = gvkParts ! 1;
            resourceGroup = SplitN2 (CHR ''.'') (gvkParts ! 0);
            resource = TrimSuffix (resourceGroup ! 0) ''.'';
            group = (if length resourceGroup > 1 then resourceGroup ! 1 else []);
            gr = ParseGroupResource (resource @ ''.'' @ group)
        in Ok \<lparr>Group = fst gr, Version = version, Resource = snd gr\<rparr>)"

definition gvkString :: "groupVersionKind \<Rightarrow> string" where
  "gvkString k = kindGroup k @ ''/'' @ kindVersion k @ '', Kind='' @ Kind k"

section \<open>The handler's collaborators\<close>

text \<open>
  The operating system and \<open>encoding/json\<close>, as the functions the package calls.
  \<open>ReadDir\<close> gives each entry's \<open>Name()\<close> and \<open>IsDir()\<close>. The three \<open>Unmarshal\<close>
  fields are \<open>json.Unmarshal\<close> into a \<open>[]byte\<close>, a \<open>map[string]interface{}\<close> and a
  \<open>map[string]bool\<close>. \<open>LoadFromTarGzip\<close> is the extraction helper of the operator's
  \<open>util\<close> package.
\<close>

record sys =
  TempDir :: "string \<Rightarrow> error + string"
  ReadDir :: "string \<Rightarrow> error + (string \<times> bool) list"
  ReadFile :: "string \<Rightarrow> error + bytes"
  Stat :: "string \<Rightarrow> error option"
  RemoveAll :: "string \<Rightarrow> error option"
  Remove :: "string \<Rightarrow> error option"
  LoadFromTarGzip :: "string \<Rightarrow> string \<Rightarrow> error option"
  UnmarshalBytes :: "bytes \<Rightarrow> error + bytes"
  UnmarshalMap :: "bytes \<Rightarrow> error + jmap"
  UnmarshalBoolMap :: "bytes \<Rightarrow> error + (string \<times> bool) list"

text \<open>
  A \<open>value.Transformer\<close> by its \<open>TransformFromStorage\<close>: stored bytes and the
  authenticated context give the plain bytes or an error. The transformer map is keyed
  by group and resource; a missing key reads as the nil transformer.
\<close>

type_synonym transformer = "bytes \<Rightarrow> string \<Rightarrow> error + bytes"

type_synonym transformerMap = "string \<times> string \<Rightarrow> transformer option"

type_synonym restMapping = "groupVersionKind \<Rightarrow> error + (gvr \<times> bool)"

section \<open>Restore objects and the dependency graph\<close>

definition metadataMapKey :: string where
  "metadataMapKey = ''metadata''"

definition ownerRefsMapKey :: string where
  "ownerRefsMapKey = ''ownerReferences''"

text \<open>\<open>Data\<close> is a pointer in the source: \<open>None\<close> is nil.\<close>

record restoreObj =
  Name :: string
  Namespace :: string
  GVR :: gvr
  ResourceConfigPath :: string
  Data :: "jmap option"

text \<open>
  The three structures \<open>OnRestoreChange\<close> allocates for the graph. The owner map is an
  association list (it is read by key only, apart from one sum over its values);
  the counter map is read with the zero value for a missing key.
\<close>

record graph =
  ownerToDependentsList :: "(string \<times> restoreObj list) list"
  toRestore :: "restoreObj list"
  numOwnerReferences :: "string \<rightharpoonup> int"

definition emptyGraph :: graph where
  "emptyGraph = \<lparr>ownerToDependentsList = [], toRestore = [], numOwnerReferences = Map.empty\<rparr>"

definition bindR :: "'a result \<Rightarrow> ('a \<Rightarrow> 'b result) \<Rightarrow> 'b result" where
  "bindR m f = (case m of Ok x \<Rightarrow> f x | Error e \<Rightarrow> Error e | Panic p \<Rightarrow> Panic p)"

text \<open>
  The decryption step that \<open>restoreCRDs\<close> and \<open>addToOwnersToDependentsList\<close> both carry:
  with a transformer, the file is a JSON byte array that is transformed back.
\<close>

definition decryptContent :: "sys \<Rightarrow> transformer option \<Rightarrow> string \<Rightarrow> bytes \<Rightarrow> error + bytes" where
  "decryptContent sys decryptionTransformer additionalAuthenticatedData resBytes =
     (case decryptionTransformer of
        None \<Rightarrow> Inr resBytes
      | Some t \<Rightarrow>
          (case UnmarshalBytes sys resBytes of
             Inl err \<Rightarrow> Inl err
           | Inr encryptedBytes \<Rightarrow> t encryptedBytes additionalAuthenticatedData))"

subsection \<open>addToOwnersToDependentsList\<close>

text \<open>
  Lines 410 to 449: the owner object of one owner reference. \<open>Ok None\<close> is the
  \<open>continue\<close> after a version that does not parse. The three one-result type assertions
  panic; the REST mapping is asked before the name is read.
\<close>

definition ownerRestoreObj ::
  "restMapping \<Rightarrow> string \<Rightarrow> restoreObj \<Rightarrow> jmap \<Rightarrow> restoreObj option result" where
  "ownerRestoreObj rfg backupPath currRestoreObj ownerRefData =
     (case assertString (mapIndex ownerRefData ''apiVersion'') of
        None \<Rightarrow> Panic TypeAssertionFailed
      | Some groupVersion \<Rightarrow>
          (case ParseGroupVersion groupVersion of
             Inl err \<Rightarrow> Ok None
           | Inr gv \<Rightarrow>
               (case assertString (mapIndex ownerRefData ''kind'') of
                  None \<Rightarrow> Panic TypeAssertionFailed
                | Some kind \<Rightarrow>
                    let gvk = \<lparr>kindGroup = fst gv, kindVersion = snd gv, Kind = kind\<rparr> in
                    (case rfg gvk of
                       Inl err \<Rightarrow>
                         Error (ErrorString (''Error getting resource for gvk '' @ gvkString gvk
                                               @ '': '' @ errorMsg err))
                     | Inr (ownerGVR, isNamespaced) \<Rightarrow>
                         let split = SplitN2 (CHR ''/'') groupVersion;
                             apiGroup = (if length split = 1 then [] else split ! 0);
                             version = (if length split = 1 then split ! 0 else split ! 1);
                             ownerDirPath = Resource ownerGVR @ ''.'' @ apiGroup @ ''#'' @ version
                         in
                         (case assertString (mapIndex ownerRefData ''name'') of
                            None \<Rightarrow> Panic TypeAssertionFailed
                          | Some ownerName \<Rightarrow>
                              let ownerObj =
                                    \<lparr>Name = ownerName, Namespace = [], GVR = ownerGVR,
                                     ResourceConfigPath =
                                       Join [backupPath, ownerDirPath, ownerName @ ''.json''],
                                     Data = None\<rparr>
                              in
                              if isNamespaced then
                                let ownerFilename =
                                      Join [Namespace currRestoreObj, ownerName @ ''.json'']
                                in Ok (Some (ownerObj
                                       \<lparr>Namespace := Namespace currRestoreObj,
                                        ResourceConfigPath :=
                                          Join [backupPath, ownerDirPath, ownerFilename]\<rparr>))
                              else Ok (Some ownerObj))))))"

text \<open>Lines 450 to 455: the current object is appended to its owner's dependents.\<close>

definition appendDependent ::
  "(string \<times> restoreObj list) list \<Rightarrow> string \<Rightarrow> restoreObj \<Rightarrow> (string \<times> restoreObj list) list" where
  "appendDependent deps ownerPath currRestoreObj =
     (case map_of deps ownerPath of
        None \<Rightarrow> AList.update ownerPath [currRestoreObj] deps
      | Some ownerObjDependents \<Rightarrow>
          AList.update ownerPath (ownerObjDependents @ [currRestoreObj]) deps)"

text \<open>
  The loop over \<open>ownerRefs\<close> (lines 401 to 456): every entry is counted first; an entry
  that is no map, or whose version does not parse, is skipped.
\<close>

fun ownersLoop ::
  "restMapping \<Rightarrow> string \<Rightarrow> restoreObj \<Rightarrow> json list \<Rightarrow>
   (string \<times> restoreObj list) list \<Rightarrow> int \<Rightarrow> ((string \<times> restoreObj list) list \<times> int) result" where
  "ownersLoop rfg backupPath currRestoreObj [] deps numOwners = Ok (deps, numOwners)"
| "ownersLoop rfg backupPath currRestoreObj (owner # rest) deps numOwners =
     (case assertMap owner of
        None \<Rightarrow> ownersLoop rfg backupPath currRestoreObj rest deps (numOwners + 1)
      | Some ownerRefData \<Rightarrow>
          (case ownerRestoreObj rfg backupPath currRestoreObj ownerRefData of
             Panic p \<Rightarrow> Panic p
           | Error e \<Rightarrow> Error e
           | Ok None \<Rightarrow> ownersLoop rfg backupPath currRestoreObj rest deps (numOwners + 1)
           | Ok (Some ownerObj) \<Rightarrow>
               ownersLoop rfg backupPath currRestoreObj rest
                 (appendDependent deps (ResourceConfigPath ownerObj) currRestoreObj)
                 (numOwners + 1)))"

text \<open>
  Lines 354 to 393: the file is read, decrypted and decoded. \<open>Ok None\<close> is the early
  \<open>return nil\<close> for a file without a metadata map.
\<close>

definition readRestoreObj ::
  "sys \<Rightarrow> string \<Rightarrow> string \<Rightarrow> gvr \<Rightarrow> transformer option \<Rightarrow> restoreObj option result" where
  "readRestoreObj sys resConfigPath additionalAuthenticatedData gvr' decryptionTransformer =
     (case ReadFile sys resConfigPath of
        Inl err \<Rightarrow> Error err
      | Inr stored \<Rightarrow>
          (case decryptContent sys decryptionTransformer additionalAuthenticatedData stored of
             Inl err \<Rightarrow> Error err
           | Inr resBytes \<Rightarrow>
               (case UnmarshalMap sys resBytes of
                  Inl err \<Rightarrow> Error err
                | Inr fileMap \<Rightarrow>
                    (case assertMap (mapIndex fileMap metadataMapKey) of
                       None \<Rightarrow> Ok None
                     | Some metadata \<Rightarrow>
                         Ok (Some
                           \<lparr>Name = stringOrEmpty (mapIndex metadata ''name''),
                            Namespace = stringOrEmpty (mapIndex metadata ''namespace''),
                            GVR = gvr',
                            ResourceConfigPath = resConfigPath,
                            Data = Some fileMap\<rparr>)))))"

text \<open>The owner-reference list of an object: \<open>metadata[ownerRefsMapKey].([]interface{})\<close>.\<close>

definition ownerRefsOf :: "restoreObj \<Rightarrow> json list option" where
  "ownerRefsOf obj =
     (case Data obj of
        None \<Rightarrow> None
      | Some fileMap \<Rightarrow>
          (case assertMap (mapIndex fileMap metadataMapKey) of
             None \<Rightarrow> None
           | Some metadata \<Rightarrow> assertSlice (mapIndex metadata ownerRefsMapKey)))"

text \<open>
  Lines 395 to 459: without an owner-reference list the object joins \<open>toRestore\<close>; with
  one, the loop runs and the counter is set to the number of entries.
\<close>

definition addRestoreObj :: "restMapping \<Rightarrow> string \<Rightarrow> restoreObj \<Rightarrow> graph \<Rightarrow> graph result" where
  "addRestoreObj rfg backupPath currRestoreObj g =
     (case ownerRefsOf currRestoreObj of
        None \<Rightarrow> Ok (g\<lparr>toRestore := toRestore g @ [currRestoreObj]\<rparr>)
      | Some ownerRefs \<Rightarrow>
          bindR (ownersLoop rfg backupPath currRestoreObj ownerRefs (ownerToDependentsList g) 0)
            (\<lambda>(deps, numOwners).
               Ok (g\<lparr>ownerToDependentsList := deps,
                     numOwnerReferences :=
                       (numOwnerReferences g)(ResourceConfigPath currRestoreObj \<mapsto> numOwners)\<rparr>)))"

definition addToOwnersToDependentsList ::
  "sys \<Rightarrow> restMapping \<Rightarrow> string \<Rightarrow> string \<Rightarrow> string \<Rightarrow> gvr \<Rightarrow> transformer option \<Rightarrow>
   graph \<Rightarrow> graph result" where
  "addToOwnersToDependentsList sys rfg backupPath resConfigPath additionalAuthenticatedData gvr'
       decryptionTransformer g =
     bindR (readRestoreObj sys resConfigPath additionalAuthenticatedData gvr' decryptionTransformer)
       (\<lambda>r. case r of
               None \<Rightarrow> Ok g
             | Some currRestoreObj \<Rightarrow> addRestoreObj rfg backupPath currRestoreObj g)"

subsection \<open>generateDependencyGraph\<close>

text \<open>The files of one namespace directory (lines 324 to 332).\<close>

fun namespaceFilesLoop ::
  "sys \<Rightarrow> restMapping \<Rightarrow> string \<Rightarrow> string \<Rightarrow> string \<Rightarrow> gvr \<Rightarrow> transformer option \<Rightarrow>
   (string \<times> bool) list \<Rightarrow> graph \<Rightarrow> graph result" where
  "namespaceFilesLoop sys rfg backupPath resourceNamespaceDirPath namespace gvr' tr [] g = Ok g"
| "namespaceFilesLoop sys rfg backupPath resourceNamespaceDirPath namespace gvr' tr
       (resourceFile # rest) g =
     (let resManifestPath = Join [resourceNamespaceDirPath, fst resourceFile];
          resourceName = TrimSuffix (fst resourceFile) ''.json'';
          additionalAuthenticatedData = namespace @ ''#'' @ resourceName
      in bindR (addToOwnersToDependentsList sys rfg backupPath resManifestPath
                  additionalAuthenticatedData gvr' tr g)
           (namespaceFilesLoop sys rfg backupPath resourceNamespaceDirPath namespace gvr' tr rest))"

text \<open>The entries of one kind directory (lines 314 to 341).\<close>

fun resourceDirLoop ::
  "sys \<Rightarrow> restMapping \<Rightarrow> string \<Rightarrow> string \<Rightarrow> gvr \<Rightarrow> transformer option \<Rightarrow>
   (string \<times> bool) list \<Rightarrow> graph \<Rightarrow> graph result" where
  "resourceDirLoop sys rfg backupPath resourceGVK gvr' tr [] g = Ok g"
| "resourceDirLoop sys rfg backupPath resourceGVK gvr' tr (resourceDirEntry # rest) g =
     (if snd resourceDirEntry then
        (let namespace = fst resourceDirEntry;
             resourceNamespaceDirPath = Join [backupPath, resourceGVK, namespace]
         in case ReadDir sys resourceNamespaceDirPath of
              Inl err \<Rightarrow> Error err
            | Inr resourceFiles \<Rightarrow>
                bindR (namespaceFilesLoop sys rfg backupPath resourceNamespaceDirPath namespace
                         gvr' tr resourceFiles g)
                  (resourceDirLoop sys rfg backupPath resourceGVK gvr' tr rest))
      else
        (let resManifestPath = Join [Join [backupPath, resourceGVK], fst resourceDirEntry];
             additionalAuthenticatedData = TrimSuffix (fst resourceDirEntry) ''.json''
         in bindR (addToOwnersToDependentsList sys rfg backupPath resManifestPath
                     additionalAuthenticatedData gvr' tr g)
              (resourceDirLoop sys rfg backupPath resourceGVK gvr' tr rest)))"

text \<open>The entries of the archive root (lines 298 to 342); \<open>filters\<close> is skipped.\<close>

fun backupEntriesLoop ::
  "sys \<Rightarrow> restMapping \<Rightarrow> string \<Rightarrow> transformerMap \<Rightarrow> (string \<times> bool) list \<Rightarrow> graph \<Rightarrow>
   graph result" where
  "backupEntriesLoop sys rfg backupPath transformers [] g = Ok g"
| "backupEntriesLoop sys rfg backupPath transformers (backupEntry # rest) g =
     (if fst backupEntry = ''filters'' then
        backupEntriesLoop sys rfg backupPath transformers rest g
      else
        (let resourceGVK = fst backupEntry;
             resourceDirPath = Join [backupPath, resourceGVK]
         in bindR (getGVR resourceGVK)
              (\<lambda>gvr'.
                 case ReadDir sys resourceDirPath of
                   Inl err \<Rightarrow> Error err
                 | Inr resourceDirEntries \<Rightarrow>
                     bindR (resourceDirLoop sys rfg backupPath resourceGVK gvr'
                              (transformers (Group gvr', Resource gvr')) resourceDirEntries g)
                       (backupEntriesLoop sys rfg backupPath transformers rest))))"

definition generateDependencyGraph ::
  "sys \<Rightarrow> restMapping \<Rightarrow> string \<Rightarrow> transformerMap \<Rightarrow> graph \<Rightarrow> graph result" where
  "generateDependencyGraph sys rfg backupPath transformers g =
     (case ReadDir sys backupPath of
        Inl err \<Rightarrow> Error err
      | Inr backupEntries \<Rightarrow> backupEntriesLoop sys rfg backupPath transformers backupEntries g)"

section \<open>The live cluster\<close>

text \<open>
  The API surface behind \<open>h.sharedClientFactory\<close> and \<open>h.dynamicClient\<close>, over a cluster
  state \<open>'c\<close>. The resource handle \<open>dr\<close> is a resource and a namespace, the empty
  namespace being the handle without \<open>.Namespace(...)\<close>. Reads leave the state as it is;
  writes return the new state whether they succeed or not.
\<close>

record 'c api =
  ResourceForGVK :: "'c \<Rightarrow> groupVersionKind \<Rightarrow> error + (gvr \<times> bool)"
  drGet :: "'c \<Rightarrow> gvr \<Rightarrow> string \<Rightarrow> string \<Rightarrow> error + jmap"
  drCreate :: "'c \<Rightarrow> gvr \<Rightarrow> string \<Rightarrow> jmap \<Rightarrow> (error + jmap) \<times> 'c"
  drUpdate :: "'c \<Rightarrow> gvr \<Rightarrow> string \<Rightarrow> jmap \<Rightarrow> (error + jmap) \<times> 'c"
  drUpdateStatus :: "'c \<Rightarrow> gvr \<Rightarrow> string \<Rightarrow> jmap \<Rightarrow> (error + jmap) \<times> 'c"

text \<open>
  What was asked of the API, in order: the verb, the resource, the namespace, the name
  of the object, and whether the call succeeded.
\<close>

datatype verb = GET | CREATE | UPDATE | UPDATE_STATUS

datatype call = Call verb gvr string string bool

definition isOk :: "error + 'a \<Rightarrow> bool" where
  "isOk r = (case r of Inl _ \<Rightarrow> False | Inr _ \<Rightarrow> True)"

subsection \<open>getOwnerNewUID and updateOwnerRefs\<close>

definition getOwnerNewUID :: "'c api \<Rightarrow> 'c \<Rightarrow> restoreObj \<Rightarrow> string result \<times> call list" where
  "getOwnerNewUID api c owner =
     (case drGet api c (GVR owner) (Namespace owner) (Name owner) of
        Inl err \<Rightarrow> (Error err, [Call GET (GVR owner) (Namespace owner) (Name owner) False])
      | Inr ownerObj \<Rightarrow>
          (case assertMap (mapIndex ownerObj metadataMapKey) of
             None \<Rightarrow> Panic TypeAssertionFailed
           | Some ownerObjMetadata \<Rightarrow>
               (case assertString (mapIndex ownerObjMetadata ''uid'') of
                  None \<Rightarrow> Panic TypeAssertionFailed
                | Some ownerObjUID \<Rightarrow> Ok ownerObjUID),
           [Call GET (GVR owner) (Namespace owner) (Name owner) True]))"

definition consResult :: "'a \<Rightarrow> call list \<Rightarrow> 'a list result \<times> call list \<Rightarrow> 'a list result \<times> call list" where
  "consResult x cs r =
     (case fst r of
        Ok xs \<Rightarrow> (Ok (x # xs), cs @ snd r)
      | Error e \<Rightarrow> (Error e, cs @ snd r)
      | Panic p \<Rightarrow> (Panic p, cs @ snd r))"

text \<open>
  \<open>updateOwnerRefs\<close> writes the owner's live uid into each reference. The source
  updates the list in place; the model returns the updated list.
\<close>

fun updateOwnerRefs ::
  "'c api \<Rightarrow> 'c \<Rightarrow> string \<Rightarrow> json list \<Rightarrow> json list result \<times> call list" where
  "updateOwnerRefs api c namespace [] = (Ok [], [])"
| "updateOwnerRefs api c namespace (ownerRef # rest) =
     (case assertMap ownerRef of
        None \<Rightarrow> (Panic TypeAssertionFailed, [])
      | Some reference \<Rightarrow>
          let apiversion = stringOrEmpty (mapIndex reference ''apiVersion'');
              kind = stringOrEmpty (mapIndex reference ''kind'')
          in
          if apiversion = [] \<or> kind = [] then
            consResult ownerRef [] (updateOwnerRefs api c namespace rest)
          else
            (case ParseGroupVersion apiversion of
               Inl err \<Rightarrow>
                 (Error (ErrorString (''err '' @ errorMsg err @ '' parsing apiversion ''
                                        @ apiversion)), [])
             | Inr ownerGV \<Rightarrow>
                 let ownerGVK = \<lparr>kindGroup = fst ownerGV, kindVersion = snd ownerGV, Kind = kind\<rparr>;
                     name = stringOrEmpty (mapIndex reference ''name'')
                 in
                 (case ResourceForGVK api c ownerGVK of
                    Inl err \<Rightarrow>
                      (Error (ErrorString (''error getting resource for gvk ''
                                             @ gvkString ownerGVK @ '': '' @ errorMsg err)), [])
                  | Inr (ownerGVR, isNamespaced) \<Rightarrow>
                      let ownerObj =
                            \<lparr>Name = name,
                             Namespace = (if isNamespaced then namespace else []),
                             GVR = ownerGVR, ResourceConfigPath = [], Data = None\<rparr>;
                          uid = getOwnerNewUID api c ownerObj
                      in
                      (case fst uid of
                         Error err \<Rightarrow>
                           (Error (ErrorString (''error obtaining new UID for '' @ name
                                                  @ '': '' @ errorMsg err)), snd uid)
                       | Panic p \<Rightarrow> (Panic p, snd uid)
                       | Ok ownerObjNewUID \<Rightarrow>
                           consResult
                             (JObj (AList.update ''uid'' (JStr ownerObjNewUID) reference))
                             (snd uid)
                             (updateOwnerRefs api c namespace rest)))))"

subsection \<open>restoreResource\<close>

text \<open>The optional status write that ends both branches (lines 589 to 595, 605 to 611).\<close>

definition updateStatusIf ::
  "'c api \<Rightarrow> 'c \<Rightarrow> gvr \<Rightarrow> string \<Rightarrow> string \<Rightarrow> jmap \<Rightarrow> bool \<Rightarrow> unit result \<times> call list \<times> 'c" where
  "updateStatusIf api c gvr' namespace name obj hasStatusSubresource =
     (if hasStatusSubresource then
        (case drUpdateStatus api c gvr' namespace obj of
           (Inl err, c') \<Rightarrow>
             (Error (Errorf ''restoreResource: err updating status resource '' err),
              [Call UPDATE_STATUS gvr' namespace name False], c')
         | (Inr _, c') \<Rightarrow> (Ok (), [Call UPDATE_STATUS gvr' namespace name True], c'))
      else (Ok (), [], c))"

definition afterCalls :: "call list \<Rightarrow> unit result \<times> call list \<times> 'c \<Rightarrow> unit result \<times> call list \<times> 'c" where
  "afterCalls cs r = (fst r, cs @ fst (snd r), snd (snd r))"

text \<open>
  Lines 579 to 614: GET; on NotFound CREATE, on another error give up, otherwise
  copy the live \<open>resourceVersion\<close> into the payload and UPDATE; then the status write.
\<close>

definition createOrUpdate ::
  "'c api \<Rightarrow> 'c \<Rightarrow> gvr \<Rightarrow> string \<Rightarrow> string \<Rightarrow> jmap \<Rightarrow> jmap \<Rightarrow> bool \<Rightarrow>
   unit result \<times> call list \<times> 'c" where
  "createOrUpdate api c gvr' namespace name obj objMetadata hasStatusSubresource =
     (case drGet api c gvr' namespace name of
        Inl err \<Rightarrow>
          if \<not> IsNotFound err then
            (Error (Errorf ''restoreResource: err getting resource '' err),
             [Call GET gvr' namespace name False], c)
          else
            (case drCreate api c gvr' namespace obj of
               (Inl err', c') \<Rightarrow>
                 (Error err',
                  [Call GET gvr' namespace name False, Call CREATE gvr' namespace name False], c')
             | (Inr createdObj, c') \<Rightarrow>
                 afterCalls
                   [Call GET gvr' namespace name False, Call CREATE gvr' namespace name True]
                   (updateStatusIf api c' gvr' namespace name createdObj hasStatusSubresource))
      | Inr res \<Rightarrow>
          (case assertMap (mapIndex res metadataMapKey) of
             None \<Rightarrow> (Panic TypeAssertionFailed, [Call GET gvr' namespace name True], c)
           | Some resMetadata \<Rightarrow>
               (case assertString (mapIndex resMetadata ''resourceVersion'') of
                  None \<Rightarrow> (Panic TypeAssertionFailed, [Call GET gvr' namespace name True], c)
                | Some resourceVersion \<Rightarrow>
                    let obj' = AList.update metadataMapKey
                                 (JObj (AList.update ''resourceVersion'' (JStr resourceVersion)
                                          objMetadata)) obj
                    in
                    (case drUpdate api c gvr' namespace obj' of
                       (Inl err, c') \<Rightarrow>
                         (Error (Errorf ''restoreResource: err updating resource '' err),
                          [Call GET gvr' namespace name True,
                           Call UPDATE gvr' namespace name False], c')
                     | (Inr _, c') \<Rightarrow>
                         afterCalls
                           [Call GET gvr' namespace name True,
                            Call UPDATE gvr' namespace name True]
                           (updateStatusIf api c' gvr' namespace name obj'
                              hasStatusSubresource)))))"

text \<open>
  \<open>restoreResource\<close>: the metadata map and the name are read with one-result type
  assertions; a non-nil owner-reference list is rewritten first.

  The source rewrites the payload behind the \<open>Data\<close> pointer in place (the owner uids and
  the resource version). Here the rewritten payload is what the API receives, and the
  objects of the graph keep the payload as it was read: the rewrite touches neither the
  fields of a \<open>restoreObj\<close> the replay loop reads nor the name, the namespace or the
  \<open>apiVersion\<close>, \<open>kind\<close> and \<open>name\<close> of an owner reference, so it could show only in the
  payload sent at a second apply of the same object.
\<close>

definition restoreResource ::
  "'c api \<Rightarrow> 'c \<Rightarrow> restoreObj \<Rightarrow> gvr \<Rightarrow> bool \<Rightarrow> unit result \<times> call list \<times> 'c" where
  "restoreResource api c currRestoreObj gvr' hasStatusSubresource =
     (case Data currRestoreObj of
        None \<Rightarrow> (Panic NilDereference, [], c)
      | Some fileMap \<Rightarrow>
          (case assertMap (mapIndex fileMap metadataMapKey) of
             None \<Rightarrow> (Panic TypeAssertionFailed, [], c)
           | Some fileMapMetadata \<Rightarrow>
               (case assertString (mapIndex fileMapMetadata ''name'') of
                  None \<Rightarrow> (Panic TypeAssertionFailed, [], c)
                | Some name \<Rightarrow>
                    let namespace = stringOrEmpty (mapIndex fileMapMetadata ''namespace'') in
                    (case assertSlice (mapIndex fileMapMetadata ownerRefsMapKey) of
                       None \<Rightarrow>
                         createOrUpdate api c gvr' namespace name fileMap fileMapMetadata
                           hasStatusSubresource
                     | Some ownerReferences \<Rightarrow>
                         let upd = updateOwnerRefs api c namespace ownerReferences in
                         (case fst upd of
                            Error err \<Rightarrow> (Error err, snd upd, c)
                          | Panic p \<Rightarrow> (Panic p, snd upd, c)
                          | Ok ownerReferences' \<Rightarrow>
                              let metadata' = AList.update ownerRefsMapKey
                                                (JArr ownerReferences') fileMapMetadata;
                                  obj = AList.update metadataMapKey (JObj metadata') fileMap
                              in afterCalls (snd upd)
                                   (createOrUpdate api c gvr' namespace name obj metadata'
                                      hasStatusSubresource))))))"

section \<open>The replay\<close>

text \<open>Reads of a \<open>map[string]bool\<close> and a \<open>map[string]int\<close>: the zero value for a missing key.\<close>

definition lookupBool :: "(string \<rightharpoonup> bool) \<Rightarrow> string \<Rightarrow> bool" where
  "lookupBool m k = (case m k of None \<Rightarrow> False | Some b \<Rightarrow> b)"

definition lookupInt :: "(string \<rightharpoonup> int) \<Rightarrow> string \<Rightarrow> int" where
  "lookupInt m k = (case m k of None \<Rightarrow> 0 | Some n \<Rightarrow> n)"

text \<open>A read of the owner map: the nil slice for a missing key.\<close>

definition dependentsOf :: "(string \<times> restoreObj list) list \<Rightarrow> string \<Rightarrow> restoreObj list" where
  "dependentsOf deps k = (case map_of deps k of None \<Rightarrow> [] | Some ds \<Rightarrow> ds)"

text \<open>One call of \<open>restoreResource\<close> by the replay: the object, the API calls, the result.\<close>

record attempt =
  applied :: restoreObj
  calls :: "call list"
  outcome :: "unit result"

text \<open>
  The variables of \<open>createFromDependencyGraph\<close>: the graph (whose \<open>toRestore\<close> is the
  ready queue), the created map, the error list and the counter of restored objects,
  with the cluster and the attempts made so far.
\<close>

record 'c replay =
  graphOf :: graph
  created :: "string \<rightharpoonup> bool"
  errList :: "error list"
  countRestored :: int
  cluster :: 'c
  attempts :: "attempt list"

text \<open>
  Lines 488 to 497: each dependent's counter is decremented when positive, and the
  dependent is appended to the queue when the counter is zero.
\<close>

fun notifyDependents ::
  "restoreObj list \<Rightarrow> (string \<rightharpoonup> int) \<Rightarrow> restoreObj list \<Rightarrow> (string \<rightharpoonup> int) \<times> restoreObj list" where
  "notifyDependents [] num queue = (num, queue)"
| "notifyDependents (dependent # rest) num queue =
     (let k = ResourceConfigPath dependent;
          num' = (if lookupInt num k > 0 then num(k \<mapsto> lookupInt num k - 1) else num);
          queue' = (if lookupInt num' k = 0 then queue @ [dependent] else queue)
      in notifyDependents rest num' queue')"

datatype 'c step = Done | Continue "'c replay" | Stop "'c replay" panic

text \<open>
  One turn of the loop (lines 470 to 500). The sum \<open>numTotalDependents\<close> computed before
  the loop is never read and is left out.
\<close>

definition replayStep :: "'c api \<Rightarrow> (string \<rightharpoonup> bool) \<Rightarrow> 'c replay \<Rightarrow> 'c step" where
  "replayStep api resourcesWithStatusSubresource st =
     (case toRestore (graphOf st) of
        [] \<Rightarrow> Done
      | currObj # rest \<Rightarrow>
          if lookupBool (created st) (ResourceConfigPath currObj) then
            Continue (st\<lparr>graphOf := (graphOf st)\<lparr>toRestore := rest\<rparr>\<rparr>)
          else
            (case restoreResource api (cluster st) currObj (GVR currObj)
                    (lookupBool resourcesWithStatusSubresource (gvrString (GVR currObj))) of
               (r, cs, c') \<Rightarrow>
                 let tried = attempts st @ [\<lparr>applied = currObj, calls = cs, outcome = r\<rparr>] in
                 (case r of
                    Panic p \<Rightarrow>
                      Stop (st\<lparr>graphOf := (graphOf st)\<lparr>toRestore := rest\<rparr>,
                               cluster := c', attempts := tried\<rparr>) p
                  | Error err \<Rightarrow>
                      Continue (st\<lparr>graphOf := (graphOf st)\<lparr>toRestore := rest\<rparr>,
                                   errList := errList st @ [err],
                                   cluster := c', attempts := tried\<rparr>)
                  | Ok _ \<Rightarrow>
                      (case notifyDependents
                              (dependentsOf (ownerToDependentsList (graphOf st))
                                 (ResourceConfigPath currObj))
                              (numOwnerReferences (graphOf st)) rest of
                         (num', queue') \<Rightarrow>
                           Continue (st\<lparr>graphOf := (graphOf st)\<lparr>toRestore := queue',
                                                                numOwnerReferences := num'\<rparr>,
                                        created := (created st)(ResourceConfigPath currObj \<mapsto> True),
                                        countRestored := countRestored st + 1,
                                        cluster := c', attempts := tried\<rparr>)))))"

text \<open>Owners that still have to notify their dependents.\<close>

definition pendingOwners :: "'c replay \<Rightarrow> string set" where
  "pendingOwners st =
     {k \<in> fst ` set (ownerToDependentsList (graphOf st)). \<not> lookupBool (created st) k}"

text \<open>
  The loop \<open>for len(toRestore) > 0\<close>. It ends: a turn either shortens the queue and leaves
  the pending owners as they are, or marks a pending owner created.
\<close>

function createLoop :: "'c api \<Rightarrow> (string \<rightharpoonup> bool) \<Rightarrow> 'c replay \<Rightarrow> 'c replay \<times> panic option" where
  "createLoop api resourcesWithStatusSubresource st =
     (case replayStep api resourcesWithStatusSubresource st of
        Done \<Rightarrow> (st, None)
      | Stop st' p \<Rightarrow> (st', Some p)
      | Continue st' \<Rightarrow> createLoop api resourcesWithStatusSubresource st')"
  by pat_completeness auto
termination
proof (relation "measures [\<lambda>(api, sset, st). card (pendingOwners st),
                           \<lambda>(api, sset, st). length (toRestore (graphOf st))]")
  show "wf (measures [\<lambda>(api :: 'c api, sset :: string \<rightharpoonup> bool, st :: 'c replay). card (pendingOwners st),
                      \<lambda>(api, sset, st). length (toRestore (graphOf st))])"
    by simp
next
  fix api :: "'c api" and sset :: "string \<rightharpoonup> bool" and st x :: "'c replay"
  assume step: "replayStep api sset st = Continue x"
  have fin: "finite (pendingOwners st)"
    by (simp add: pendingOwners_def)
  have notify_nil: "\<And>num q. notifyDependents [] num q = (num, q)"
    by simp
  have "card (pendingOwners x) < card (pendingOwners st)
        \<or> (card (pendingOwners x) = card (pendingOwners st)
            \<and> length (toRestore (graphOf x)) < length (toRestore (graphOf st)))"
  proof (cases "toRestore (graphOf st)")
    case Nil
    with step show ?thesis by (simp add: replayStep_def)
  next
    case (Cons currObj rest)
    show ?thesis
    proof (cases "lookupBool (created st) (ResourceConfigPath currObj)")
      case True
      with step Cons have "x = st\<lparr>graphOf := (graphOf st)\<lparr>toRestore := rest\<rparr>\<rparr>"
        by (simp add: replayStep_def)
      with Cons show ?thesis by (simp add: pendingOwners_def)
    next
      case notCreated: False
      obtain r cs c' where rr: "restoreResource api (cluster st) currObj (GVR currObj)
                    (lookupBool sset (gvrString (GVR currObj))) = (r, cs, c')"
        by (metis prod_cases3)
      show ?thesis
      proof (cases r)
        case (Panic p)
        with step Cons notCreated rr show ?thesis by (simp add: replayStep_def)
      next
        case (Error e)
        with step Cons notCreated rr have "pendingOwners x = pendingOwners st"
          and "toRestore (graphOf x) = rest"
          by (auto simp add: replayStep_def pendingOwners_def)
        with Cons show ?thesis by simp
      next
        case (Ok u)
        let ?k = "ResourceConfigPath currObj"
        obtain num' queue' where nd: "notifyDependents
                              (dependentsOf (ownerToDependentsList (graphOf st)) ?k)
                              (numOwnerReferences (graphOf st)) rest = (num', queue')"
          by (metis surj_pair)
        from step Cons notCreated rr Ok nd
        have xo: "ownerToDependentsList (graphOf x) = ownerToDependentsList (graphOf st)"
          and xc: "created x = (created st)(?k \<mapsto> True)"
          and xq: "toRestore (graphOf x) = queue'"
          by (auto simp add: replayStep_def)
        show ?thesis
        proof (cases "?k \<in> fst ` set (ownerToDependentsList (graphOf st))")
          case isOwner: True
          have "pendingOwners x = pendingOwners st - {?k}"
            using xo xc by (auto simp add: pendingOwners_def lookupBool_def)
          moreover have "?k \<in> pendingOwners st"
            using isOwner notCreated by (simp add: pendingOwners_def)
          ultimately have "card (pendingOwners x) < card (pendingOwners st)"
            using fin card_Diff1_less[of "pendingOwners st" ?k] by simp
          then show ?thesis by simp
        next
          case noOwner: False
          then have "map_of (ownerToDependentsList (graphOf st)) ?k = None"
            by (simp add: map_of_eq_None_iff)
          then have "queue' = rest"
            using nd by (simp add: dependentsOf_def)
          moreover have "pendingOwners x = pendingOwners st"
            using xo xc noOwner by (force simp add: pendingOwners_def lookupBool_def)
          ultimately show ?thesis using xq Cons by simp
        qed
      qed
    qed
  qed
  then show "((api, sset, x), (api, sset, st))
        \<in> measures [\<lambda>(api, sset, st). card (pendingOwners st),
                     \<lambda>(api, sset, st). length (toRestore (graphOf st))]"
    by auto
qed

text \<open>
  Modelled from the spec: \<open>util.ErrList\<close>, which is outside the package. All per-object
  errors are collected into a single composite error; an empty list is no error.
\<close>

definition ErrList :: "error list \<Rightarrow> unit result" where
  "ErrList es = (if es = [] then Ok () else Error (Aggregate es))"

definition createFromDependencyGraph ::
  "'c api \<Rightarrow> 'c \<Rightarrow> (string \<times> restoreObj list) list \<Rightarrow> (string \<rightharpoonup> bool) \<Rightarrow> (string \<rightharpoonup> int) \<Rightarrow>
   restoreObj list \<Rightarrow> (string \<rightharpoonup> bool) \<Rightarrow> unit result \<times> 'c replay" where
  "createFromDependencyGraph api c ownerToDependents createdMap numOwnerRefs toRestoreList
       resourcesWithStatusSubresource =
     (case createLoop api resourcesWithStatusSubresource
             \<lparr>graphOf = \<lparr>ownerToDependentsList = ownerToDependents,
                         toRestore = toRestoreList,
                         numOwnerReferences = numOwnerRefs\<rparr>,
              created = createdMap, errList = [], countRestored = 0,
              cluster = c, attempts = []\<rparr> of
        (st, Some p) \<Rightarrow> (Panic p, st)
      | (st, None) \<Rightarrow> (ErrList (errList st), st))"

section \<open>The definition installer: restoreCRDs\<close>

text \<open>
  The files of one definition directory (lines 239 to 273). There is no check for
  sub-directories; each entry is read as a file. A failed apply ends the installation.
\<close>

fun crdFilesLoop ::
  "sys \<Rightarrow> 'c api \<Rightarrow> string \<Rightarrow> gvr \<Rightarrow> transformer option \<Rightarrow> (string \<times> bool) list \<Rightarrow>
   (string \<rightharpoonup> bool) \<Rightarrow> 'c \<Rightarrow> attempt list \<Rightarrow>
   unit result \<times> (string \<rightharpoonup> bool) \<times> 'c \<times> attempt list" where
  "crdFilesLoop sys api resourceDirPath gvr' tr [] createdMap c tried =
     (Ok (), createdMap, c, tried)"
| "crdFilesLoop sys api resourceDirPath gvr' tr (resFile # rest) createdMap c tried =
     (let resConfigPath = Join [resourceDirPath, fst resFile] in
      case ReadFile sys resConfigPath of
        Inl err \<Rightarrow> (Error err, createdMap, c, tried)
      | Inr stored \<Rightarrow>
          let crdName = TrimSuffix (fst resFile) ''.json'' in
          (case decryptContent sys tr crdName stored of
             Inl err \<Rightarrow> (Error err, createdMap, c, tried)
           | Inr crdContent \<Rightarrow>
               (case UnmarshalMap sys crdContent of
                  Inl err \<Rightarrow> (Error err, createdMap, c, tried)
                | Inr crdData \<Rightarrow>
                    let restoreObjKey =
                          \<lparr>Name = crdName, Namespace = [], GVR = gvr',
                           ResourceConfigPath = resConfigPath, Data = Some crdData\<rparr>
                    in
                    (case restoreResource api c restoreObjKey gvr' False of
                       (r, cs, c') \<Rightarrow>
                         let tried' = tried @ [\<lparr>applied = restoreObjKey, calls = cs,
                                                 outcome = r\<rparr>]
                         in
                         (case r of
                            Panic p \<Rightarrow> (Panic p, createdMap, c', tried')
                          | Error err \<Rightarrow>
                              (Error (Errorf ''restoreCRDs: '' err), createdMap, c', tried')
                          | Ok _ \<Rightarrow>
                              crdFilesLoop sys api resourceDirPath gvr' tr rest
                                (createdMap(resConfigPath \<mapsto> True)) c' tried')))))"

text \<open>The two definition directories (lines 227 to 274); a missing one is skipped.\<close>

fun crdDirsLoop ::
  "sys \<Rightarrow> 'c api \<Rightarrow> string \<Rightarrow> transformerMap \<Rightarrow> string list \<Rightarrow>
   (string \<rightharpoonup> bool) \<Rightarrow> 'c \<Rightarrow> attempt list \<Rightarrow>
   unit result \<times> (string \<rightharpoonup> bool) \<times> 'c \<times> attempt list" where
  "crdDirsLoop sys api backupPath transformers [] createdMap c tried =
     (Ok (), createdMap, c, tried)"
| "crdDirsLoop sys api backupPath transformers (resourceGVK # rest) createdMap c tried =
     (let resourceDirPath = Join [backupPath, resourceGVK] in
      if (case Stat sys resourceDirPath of None \<Rightarrow> False | Some err \<Rightarrow> IsNotExist err) then
        crdDirsLoop sys api backupPath transformers rest createdMap c tried
      else
        (case getGVR resourceGVK of
           Panic p \<Rightarrow> (Panic p, createdMap, c, tried)
         | Error err \<Rightarrow> (Error err, createdMap, c, tried)
         | Ok gvr' \<Rightarrow>
             (case ReadDir sys resourceDirPath of
                Inl err \<Rightarrow> (Error err, createdMap, c, tried)
              | Inr dirContents \<Rightarrow>
                  (case crdFilesLoop sys api resourceDirPath gvr'
                          (transformers (Group gvr', Resource gvr')) dirContents
                          createdMap c tried of
                     (Ok _, createdMap', c', tried') \<Rightarrow>
                       crdDirsLoop sys api backupPath transformers rest createdMap' c' tried'
                   | other \<Rightarrow> other))))"

definition crdDirectories :: "string list" where
  "crdDirectories =
     [''customresourcedefinitions.apiextensions.k8s.io#v1'',
      ''customresourcedefinitions.apiextensions.k8s.io#v1beta1'']"

definition restoreCRDs ::
  "sys \<Rightarrow> 'c api \<Rightarrow> string \<Rightarrow> transformerMap \<Rightarrow> (string \<rightharpoonup> bool) \<Rightarrow> 'c \<Rightarrow>
   unit result \<times> (string \<rightharpoonup> bool) \<times> 'c \<times> attempt list" where
  "restoreCRDs sys api backupPath transformers createdMap c =
     crdDirsLoop sys api backupPath transformers crdDirectories createdMap c []"

definition findResourcesWithStatusSubresource :: "sys \<Rightarrow> string \<Rightarrow> (string \<rightharpoonup> bool) result" where
  "findResourcesWithStatusSubresource sys backupPath =
     (case ReadFile sys (Join [backupPath, ''filters'', ''statussubresource.json'']) of
        Inl err \<Rightarrow> Error err
      | Inr fileBytes \<Rightarrow>
          (case UnmarshalBoolMap sys fileBytes of
             Inl err \<Rightarrow> Error err
           | Inr m \<Rightarrow> Ok (map_of m)))"

section \<open>OnRestoreChange\<close>

text \<open>
  The fields of the restore request the handler reads. The storage location is a
  pointer, and so is its S3 part, whose content only \<open>downloadFromS3\<close> looks at.
\<close>

record storageLocation =
  Local :: string
  S3 :: "string option"

record restoreSpec =
  BackupFilename :: string
  StorageLocation :: "storageLocation option"
  EncryptionConfigName :: string
  Prune :: bool
  DeleteTimeout :: int

text \<open>
  The operator's own code outside the package: the S3 download (a file path and an
  error), the encryption configuration read from the cluster by namespace and name, the
  transformers built from it, and the prune pass.
\<close>

record 'c operator =
  downloadFromS3 :: "restoreSpec \<Rightarrow> string \<times> error option"
  GetEncryptionConfig :: "'c \<Rightarrow> string \<Rightarrow> string \<Rightarrow> error + string"
  GetEncryptionTransformers :: "string \<Rightarrow> error + transformerMap"
  prune :: "'c \<Rightarrow> string \<Rightarrow> string \<Rightarrow> int \<Rightarrow> transformerMap \<Rightarrow> error option \<times> 'c"

datatype fsEvent = RemoveAllEv string | RemoveEv string

text \<open>
  What one invocation did: how it ended (\<open>Ok ()\<close> is the nil error), the removals it
  asked of the file system, the applies of the installer and of the replay, and the
  cluster it left.
\<close>

record 'c run =
  returned :: "unit result"
  fsEvents :: "fsEvent list"
  installs :: "attempt list"
  replays :: "attempt list"
  endCluster :: 'c

text \<open>
  The error exit repeated through the handler: remove the extraction directory, return
  both messages if that fails, the error otherwise.
\<close>

definition removeDirAndReturn :: "sys \<Rightarrow> string \<Rightarrow> error \<Rightarrow> 'a result" where
  "removeDirAndReturn sys backupPath err =
     (case RemoveAll sys backupPath of
        Some removeDirErr \<Rightarrow> Error (errorsNew2 err removeDirErr)
      | None \<Rightarrow> Error err)"

text \<open>
  The same exit with \<open>panic(err)\<close> before the \<open>return\<close> (lines 165 to 170, 188 to 193,
  202 to 207).
\<close>

definition removeDirAndPanic :: "sys \<Rightarrow> string \<Rightarrow> error \<Rightarrow> 'a result" where
  "removeDirAndPanic sys backupPath err =
     (case RemoveAll sys backupPath of
        Some removeDirErr \<Rightarrow> Error (errorsNew2 err removeDirErr)
      | None \<Rightarrow> Panic (PanicError err))"

text \<open>The S3 exit: the directory, then the downloaded file (lines 114 to 122).\<close>

definition removeDirAndFile ::
  "sys \<Rightarrow> string \<Rightarrow> string \<Rightarrow> error \<Rightarrow> 'a result \<times> fsEvent list" where
  "removeDirAndFile sys backupPath backupFilePath err =
     (case RemoveAll sys backupPath of
        Some removeDirErr \<Rightarrow> (Error (errorsNew2 err removeDirErr), [RemoveAllEv backupPath])
      | None \<Rightarrow>
          (case Remove sys backupFilePath of
             Some removeFileErr \<Rightarrow>
               (Error (errorsNew2 err removeFileErr),
                [RemoveAllEv backupPath, RemoveEv backupFilePath])
           | None \<Rightarrow> (Error err, [RemoveAllEv backupPath, RemoveEv backupFilePath])))"

text \<open>
  Lines 89 to 140: the temporary directory is made and the archive is unpacked into it.
  At line 138 the \<open>err\<close> in scope is the nil error of the download, so \<open>err.Error()\<close> is
  a nil dereference.
\<close>

definition fetchBackup :: "sys \<Rightarrow> 'c operator \<Rightarrow> restoreSpec \<Rightarrow> string result \<times> fsEvent list" where
  "fetchBackup sys ops spec =
     (let backupName = BackupFilename spec in
      case TempDir sys (TrimSuffix backupName ''.tar.gz'') of
        Inl err \<Rightarrow> (Error err, [])
      | Inr backupPath \<Rightarrow>
          (case StorageLocation spec of
             None \<Rightarrow> (Error (ErrorString ''Specify backup location during restore''), [])
           | Some backupLocation \<Rightarrow>
               if Local backupLocation \<noteq> [] then
                 (let backupFilePath = Join [Local backupLocation, backupName] in
                  case LoadFromTarGzip sys backupFilePath backupPath of
                    Some err \<Rightarrow>
                      (removeDirAndReturn sys backupPath err, [RemoveAllEv backupPath])
                  | None \<Rightarrow> (Ok backupPath, []))
               else if S3 backupLocation \<noteq> None then
                 (case downloadFromS3 ops spec of
                    (backupFilePath, Some err) \<Rightarrow>
                      removeDirAndFile sys backupPath backupFilePath err
                  | (backupFilePath, None) \<Rightarrow>
                      (case LoadFromTarGzip sys backupFilePath backupPath of
                         Some err \<Rightarrow> removeDirAndFile sys backupPath backupFilePath err
                       | None \<Rightarrow>
                           (case Remove sys backupFilePath of
                              Some removeFileErr \<Rightarrow>
                                (Panic NilDereference, [RemoveEv backupFilePath])
                            | None \<Rightarrow> (Ok backupPath, [RemoveEv backupFilePath]))))
               else (Ok backupPath, [])))"

text \<open>
  Lines 160 to 222: definitions, the status set, the graph, the replay, the optional
  prune, and the final removal of the directory.
\<close>

definition restoreArchive ::
  "sys \<Rightarrow> 'c api \<Rightarrow> 'c operator \<Rightarrow> 'c \<Rightarrow> restoreSpec \<Rightarrow> string \<Rightarrow> transformerMap \<Rightarrow> 'c run" where
  "restoreArchive sys api ops c spec backupPath transformers =
     (case restoreCRDs sys api backupPath transformers Map.empty c of
        (Panic p, createdMap, c1, ins) \<Rightarrow>
          \<lparr>returned = Panic p, fsEvents = [], installs = ins, replays = [], endCluster = c1\<rparr>
      | (Error err, createdMap, c1, ins) \<Rightarrow>
          \<lparr>returned = removeDirAndPanic sys backupPath err,
           fsEvents = [RemoveAllEv backupPath], installs = ins, replays = [], endCluster = c1\<rparr>
      | (Ok _, createdMap, c1, ins) \<Rightarrow>
          (case findResourcesWithStatusSubresource sys backupPath of
             Panic p \<Rightarrow>
               \<lparr>returned = Panic p, fsEvents = [], installs = ins, replays = [],
                endCluster = c1\<rparr>
           | Error err \<Rightarrow>
               \<lparr>returned = removeDirAndReturn sys backupPath err,
                fsEvents = [RemoveAllEv backupPath], installs = ins, replays = [],
                endCluster = c1\<rparr>
           | Ok resourcesWithStatusSubresource \<Rightarrow>
               (case generateDependencyGraph sys (ResourceForGVK api c1) backupPath transformers
                       emptyGraph of
                  Panic p \<Rightarrow>
                    \<lparr>returned = Panic p, fsEvents = [], installs = ins, replays = [],
                     endCluster = c1\<rparr>
                | Error err \<Rightarrow>
                    \<lparr>returned = removeDirAndPanic sys backupPath err,
                     fsEvents = [RemoveAllEv backupPath], installs = ins, replays = [],
                     endCluster = c1\<rparr>
                | Ok g \<Rightarrow>
                    (case createFromDependencyGraph api c1 (ownerToDependentsList g) createdMap
                            (numOwnerReferences g) (toRestore g)
                            resourcesWithStatusSubresource of
                       (Panic p, st) \<Rightarrow>
                         \<lparr>returned = Panic p, fsEvents = [], installs = ins,
                          replays = attempts st, endCluster = cluster st\<rparr>
                     | (Error err, st) \<Rightarrow>
                         \<lparr>returned = removeDirAndPanic sys backupPath err,
                          fsEvents = [RemoveAllEv backupPath], installs = ins,
                          replays = attempts st, endCluster = cluster st\<rparr>
                     | (Ok _, st) \<Rightarrow>
                         (case (if Prune spec
                                then prune ops (cluster st)
                                       (TrimSuffix (BackupFilename spec) ''.tar.gz'')
                                       backupPath (DeleteTimeout spec) transformers
                                else (None, cluster st)) of
                            (Some err, c3) \<Rightarrow>
                              \<lparr>returned = Error (Errorf ''error pruning during restore: '' err),
                               fsEvents = [], installs = ins, replays = attempts st,
                               endCluster = c3\<rparr>
                          | (None, c3) \<Rightarrow>
                              \<lparr>returned = (case RemoveAll sys backupPath of
                                             Some err \<Rightarrow> Error err
                                           | None \<Rightarrow> Ok ()),
                               fsEvents = [RemoveAllEv backupPath], installs = ins,
                               replays = attempts st, endCluster = c3\<rparr>)))))"

definition noRun :: "'c \<Rightarrow> unit result \<Rightarrow> fsEvent list \<Rightarrow> 'c run" where
  "noRun c r evs = \<lparr>returned = r, fsEvents = evs, installs = [], replays = [], endCluster = c\<rparr>"

text \<open>
  \<open>OnRestoreChange\<close> for a non-nil restore request: fetch, then the encryption
  configuration named by the request (lines 141 to 158), then the archive.
\<close>

definition OnRestoreChange ::
  "sys \<Rightarrow> 'c api \<Rightarrow> 'c operator \<Rightarrow> 'c \<Rightarrow> restoreSpec \<Rightarrow> 'c run" where
  "OnRestoreChange sys api ops c spec =
     (case fetchBackup sys ops spec of
        (Panic p, evs) \<Rightarrow> noRun c (Panic p) evs
      | (Error err, evs) \<Rightarrow> noRun c (Error err) evs
      | (Ok tempPath, evs) \<Rightarrow>
          let backupPath = TrimSuffix tempPath ''.tar.gz'' in
          (case GetEncryptionConfig ops c ''default'' (EncryptionConfigName spec) of
             Inl err \<Rightarrow>
               noRun c (removeDirAndReturn sys backupPath err) (evs @ [RemoveAllEv backupPath])
           | Inr config \<Rightarrow>
               (case GetEncryptionTransformers ops config of
                  Inl err \<Rightarrow>
                    noRun c (removeDirAndReturn sys backupPath err)
                      (evs @ [RemoveAllEv backupPath])
                | Inr transformers \<Rightarrow>
                    (let r = restoreArchive sys api ops c spec backupPath transformers
                     in r\<lparr>fsEvents := evs @ fsEvents r\<rparr>))))"

section \<open>What the claims speak of\<close>

subsection \<open>The parents of an object\<close>

text \<open>
  The sourcePaths of the parents of an object, as the graph builder computes them: one
  for every owner reference that is a map and resolves to an owner object, in the order
  of the list. An object without an owner-reference list has none.
\<close>

fun ownerPathsOfRefs :: "restMapping \<Rightarrow> string \<Rightarrow> restoreObj \<Rightarrow> json list \<Rightarrow> string list" where
  "ownerPathsOfRefs rfg backupPath currRestoreObj [] = []"
| "ownerPathsOfRefs rfg backupPath currRestoreObj (owner # rest) =
     (case assertMap owner of
        None \<Rightarrow> ownerPathsOfRefs rfg backupPath currRestoreObj rest
      | Some ownerRefData \<Rightarrow>
          (case ownerRestoreObj rfg backupPath currRestoreObj ownerRefData of
             Ok (Some ownerObj) \<Rightarrow>
               ResourceConfigPath ownerObj # ownerPathsOfRefs rfg backupPath currRestoreObj rest
           | _ \<Rightarrow> ownerPathsOfRefs rfg backupPath currRestoreObj rest))"

definition ownerPaths :: "restMapping \<Rightarrow> string \<Rightarrow> restoreObj \<Rightarrow> string list" where
  "ownerPaths rfg backupPath obj =
     (case ownerRefsOf obj of
        None \<Rightarrow> []
      | Some ownerRefs \<Rightarrow> ownerPathsOfRefs rfg backupPath obj ownerRefs)"

subsection \<open>The objects of the archive\<close>

text \<open>
  The objects of the archive, in the order \<open>generateDependencyGraph\<close> meets them: every
  file below a kind directory that reads, decrypts and decodes into an object with a
  metadata map.
\<close>

definition readObjects ::
  "sys \<Rightarrow> string \<Rightarrow> string \<Rightarrow> gvr \<Rightarrow> transformer option \<Rightarrow> restoreObj list" where
  "readObjects sys resConfigPath additionalAuthenticatedData gvr' tr =
     (case readRestoreObj sys resConfigPath additionalAuthenticatedData gvr' tr of
        Ok (Some obj) \<Rightarrow> [obj]
      | _ \<Rightarrow> [])"

definition namespaceObjects ::
  "sys \<Rightarrow> string \<Rightarrow> string \<Rightarrow> gvr \<Rightarrow> transformer option \<Rightarrow> (string \<times> bool) list \<Rightarrow> restoreObj list" where
  "namespaceObjects sys resourceNamespaceDirPath namespace gvr' tr resourceFiles =
     concat (map (\<lambda>resourceFile.
                    readObjects sys (Join [resourceNamespaceDirPath, fst resourceFile])
                      (namespace @ ''#'' @ TrimSuffix (fst resourceFile) ''.json'') gvr' tr)
               resourceFiles)"

definition resourceDirObjects ::
  "sys \<Rightarrow> string \<Rightarrow> string \<Rightarrow> gvr \<Rightarrow> transformer option \<Rightarrow> (string \<times> bool) list \<Rightarrow> restoreObj list" where
  "resourceDirObjects sys backupPath resourceGVK gvr' tr resourceDirEntries =
     concat (map (\<lambda>resourceDirEntry.
                    if snd resourceDirEntry then
                      (case ReadDir sys (Join [backupPath, resourceGVK, fst resourceDirEntry]) of
                         Inl err \<Rightarrow> []
                       | Inr resourceFiles \<Rightarrow>
                           namespaceObjects sys
                             (Join [backupPath, resourceGVK, fst resourceDirEntry])
                             (fst resourceDirEntry) gvr' tr resourceFiles)
                    else
                      readObjects sys (Join [Join [backupPath, resourceGVK], fst resourceDirEntry])
                        (TrimSuffix (fst resourceDirEntry) ''.json'') gvr' tr)
               resourceDirEntries)"

definition backupEntryObjects ::
  "sys \<Rightarrow> string \<Rightarrow> transformerMap \<Rightarrow> string \<times> bool \<Rightarrow> restoreObj list" where
  "backupEntryObjects sys backupPath transformers backupEntry =
     (if fst backupEntry = ''filters'' then []
      else
        (case getGVR (fst backupEntry) of
           Ok gvr' \<Rightarrow>
             (case ReadDir sys (Join [backupPath, fst backupEntry]) of
                Inl err \<Rightarrow> []
              | Inr resourceDirEntries \<Rightarrow>
                  resourceDirObjects sys backupPath (fst backupEntry) gvr'
                    (transformers (Group gvr', Resource gvr')) resourceDirEntries)
         | _ \<Rightarrow> []))"

definition archiveObjects :: "sys \<Rightarrow> transformerMap \<Rightarrow> string \<Rightarrow> restoreObj list" where
  "archiveObjects sys transformers backupPath =
     (case ReadDir sys backupPath of
        Inl err \<Rightarrow> []
      | Inr backupEntries \<Rightarrow>
          concat (map (backupEntryObjects sys backupPath transformers) backupEntries))"

text \<open>
  \<open>addRestoreObj\<close> over a list of objects, stopping at the first error or panic.
\<close>

fun foldObjects :: "restMapping \<Rightarrow> string \<Rightarrow> restoreObj list \<Rightarrow> graph \<Rightarrow> graph result" where
  "foldObjects rfg backupPath [] g = Ok g"
| "foldObjects rfg backupPath (obj # rest) g =
     bindR (addRestoreObj rfg backupPath obj g) (foldObjects rfg backupPath rest)"

subsection \<open>The order of the replay\<close>

text \<open>
  The sourcePaths the replay has applied successfully so far.
\<close>

definition succeeded :: "attempt list \<Rightarrow> string set" where
  "succeeded tried = {ResourceConfigPath (applied a) | a. a \<in> set tried \<and> outcome a = Ok ()}"

text \<open>
  Every attempt of the replay comes after a successful apply of each parent of its
  object.
\<close>

definition parentsFirst :: "restMapping \<Rightarrow> string \<Rightarrow> attempt list \<Rightarrow> bool" where
  "parentsFirst rfg backupPath tried =
     (\<forall>i < length tried. \<forall>p \<in> set (ownerPaths rfg backupPath (applied (tried ! i))).
        \<exists>j < i. ResourceConfigPath (applied (tried ! j)) = p \<and> outcome (tried ! j) = Ok ())"

text \<open>
  The invariant of the replay loop over the objects of the archive: every counter is
  the number of entries of the owner-reference list less the parents applied so far; what
  was applied is marked created; a queued object has all its parents applied; the
  attempts are in parents-first order and are objects of the archive; and the owner map
  lists, for every path, the objects that name it as a parent, once per reference.
\<close>

definition replayInv :: "restMapping \<Rightarrow> string \<Rightarrow> restoreObj list \<Rightarrow> 'c replay \<Rightarrow> bool" where
  "replayInv rfg backupPath objs st =
     ((\<forall>c \<in> set objs. \<forall>refs. ownerRefsOf c = Some refs \<longrightarrow>
          lookupInt (numOwnerReferences (graphOf st)) (ResourceConfigPath c) =
            int (length refs)
              - int (length (filter (\<lambda>p. p \<in> succeeded (attempts st))
                               (ownerPaths rfg backupPath c))))
      \<and> (\<forall>p \<in> succeeded (attempts st). lookupBool (created st) p)
      \<and> (\<forall>c \<in> set (toRestore (graphOf st)).
            c \<in> set objs \<and> set (ownerPaths rfg backupPath c) \<subseteq> succeeded (attempts st))
      \<and> parentsFirst rfg backupPath (attempts st)
      \<and> (\<forall>a \<in> set (attempts st). applied a \<in> set objs)
      \<and> (\<forall>p. dependentsOf (ownerToDependentsList (graphOf st)) p =
               concat (map (\<lambda>c. replicate (count_list (ownerPaths rfg backupPath c) p) c) objs)))"

subsection \<open>The counter as the specification words it\<close>

text \<open>
  The value the specification gives the unresolved-parent counter, in its words: the
  number of distinct parents of the owner-reference list that are not yet in Created,
  a parent whose sourcePath is no file of the archive contributing 0.
\<close>

definition claimedUnresolvedParents ::
  "sys \<Rightarrow> restMapping \<Rightarrow> string \<Rightarrow> (string \<rightharpoonup> bool) \<Rightarrow> restoreObj \<Rightarrow> int" where
  "claimedUnresolvedParents sys rfg backupPath createdMap obj =
     int (length (remdups (filter (\<lambda>p. \<not> lookupBool createdMap p \<and> isOk (ReadFile sys p))
                             (ownerPaths rfg backupPath obj))))"

subsection \<open>What an apply wrote\<close>

text \<open>
  A call that wrote the object (a CREATE or an UPDATE that succeeded), and a call of the
  status subresource.
\<close>

fun isWrite :: "call \<Rightarrow> bool" where
  "isWrite (Call v g ns n ok) = ((v = CREATE \<or> v = UPDATE) \<and> ok)"

fun isStatusWrite :: "call \<Rightarrow> bool" where
  "isStatusWrite (Call v g ns n ok) = (v = UPDATE_STATUS)"

definition objectWritten :: "call list \<Rightarrow> bool" where
  "objectWritten cs = list_ex isWrite cs"

definition statusWritten :: "call list \<Rightarrow> bool" where
  "statusWritten cs = list_ex isStatusWrite cs"

definition readsOnly :: "call list \<Rightarrow> bool" where
  "readsOnly cs = (\<not> objectWritten cs \<and> \<not> statusWritten cs)"

text \<open>
  The rule of the status write for the calls of one apply: once the object is written,
  the status write is made exactly when the flag is set, and it is never made unless
  the object was written.
\<close>

definition statusRule :: "bool \<Rightarrow> call list \<Rightarrow> bool" where
  "statusRule hasStatusSubresource cs =
     ((objectWritten cs \<longrightarrow> (statusWritten cs \<longleftrightarrow> hasStatusSubresource))
      \<and> (statusWritten cs \<longrightarrow> objectWritten cs))"

definition attemptsFollowRule :: "(string \<rightharpoonup> bool) \<Rightarrow> attempt list \<Rightarrow> bool" where
  "attemptsFollowRule sset tried =
     (\<forall>a \<in> set tried. statusRule (lookupBool sset (gvrString (GVR (applied a)))) (calls a))"

text \<open>
  The names and results of a list of attempts.
\<close>

definition outcomes :: "attempt list \<Rightarrow> (string \<times> unit result) list" where
  "outcomes tried = map (\<lambda>a. (Name (applied a), outcome a)) tried"

text \<open>
  The errors of the failed attempts, in order, and an attempt that ended in a panic.
\<close>

fun errorsOf :: "attempt list \<Rightarrow> error list" where
  "errorsOf [] = []"
| "errorsOf (a # rest) = (case outcome a of Error e \<Rightarrow> e # errorsOf rest | _ \<Rightarrow> errorsOf rest)"

definition panicked :: "attempt \<Rightarrow> bool" where
  "panicked a = (case outcome a of Panic p \<Rightarrow> True | _ \<Rightarrow> False)"

subsection \<open>What the API was asked\<close>

text \<open>
  A write asked of the API: the verb, the resource, the namespace, and whether the call
  succeeded.
\<close>

datatype request = Request verb gvr string bool

text \<open>
  The API over a cluster that carries a journal. The API itself appends every CREATE,
  UPDATE and status write asked of it to the journal and serves it as before; reads
  leave the journal as it is. The journal is what the cluster saw, whatever
  \<open>restoreResource\<close> reports in its own list of calls.
\<close>

definition journalled ::
  "verb \<Rightarrow> gvr \<Rightarrow> string \<Rightarrow> request list \<Rightarrow> (error + jmap) \<times> 'c \<Rightarrow>
   (error + jmap) \<times> ('c \<times> request list)" where
  "journalled v g ns journal r = (fst r, (snd r, journal @ [Request v g ns (isOk (fst r))]))"

definition recording :: "'c api \<Rightarrow> ('c \<times> request list) api" where
  "recording api =
     \<lparr>ResourceForGVK = (\<lambda>s. ResourceForGVK api (fst s)),
      drGet = (\<lambda>s. drGet api (fst s)),
      drCreate = (\<lambda>s g ns obj. journalled CREATE g ns (snd s) (drCreate api (fst s) g ns obj)),
      drUpdate = (\<lambda>s g ns obj. journalled UPDATE g ns (snd s) (drUpdate api (fst s) g ns obj)),
      drUpdateStatus = (\<lambda>s g ns obj.
                          journalled UPDATE_STATUS g ns (snd s)
                            (drUpdateStatus api (fst s) g ns obj))\<rparr>"

text \<open>
  The operator's own code over such a cluster: it sees the cluster and leaves the
  journal as it is.
\<close>

definition unrecorded :: "'c operator \<Rightarrow> ('c \<times> request list) operator" where
  "unrecorded ops =
     \<lparr>downloadFromS3 = downloadFromS3 ops,
      GetEncryptionConfig = (\<lambda>s. GetEncryptionConfig ops (fst s)),
      GetEncryptionTransformers = GetEncryptionTransformers ops,
      prune = (\<lambda>s name path timeout transformers.
                 case prune ops (fst s) name path timeout transformers of
                   (err, c') \<Rightarrow> (err, (c', snd s)))\<rparr>"

text \<open>
  The writes among the calls of one apply, in order, and the writes of an attempt.
\<close>

fun requestsOf :: "call list \<Rightarrow> request list" where
  "requestsOf [] = []"
| "requestsOf (Call v g ns n ok # rest) =
     (if v = GET then requestsOf rest else Request v g ns ok # requestsOf rest)"

definition requested :: "attempt \<Rightarrow> request list" where
  "requested a = requestsOf (calls a)"

text \<open>
  A request that wrote the object (a CREATE or an UPDATE that succeeded), and a request
  of the status subresource.
\<close>

fun isObjectRequest :: "request \<Rightarrow> bool" where
  "isObjectRequest (Request v g ns ok) = ((v = CREATE \<or> v = UPDATE) \<and> ok)"

fun isStatusRequest :: "request \<Rightarrow> bool" where
  "isStatusRequest (Request v g ns ok) = (v = UPDATE_STATUS)"

definition objectRequested :: "request list \<Rightarrow> bool" where
  "objectRequested rs = list_ex isObjectRequest rs"

definition statusRequested :: "request list \<Rightarrow> bool" where
  "statusRequested rs = list_ex isStatusRequest rs"

text \<open>
  The requests of an apply that ends in a follow-up status write: the write of the
  object, which succeeded, and then the status write, on the same resource and
  namespace, and nothing else.
\<close>

fun followsWrite :: "gvr \<Rightarrow> request list \<Rightarrow> bool" where
  "followsWrite g [Request v1 g1 ns1 ok1, Request v2 g2 ns2 ok2] =
     ((v1 = CREATE \<or> v1 = UPDATE) \<and> ok1 \<and> g1 = g
      \<and> v2 = UPDATE_STATUS \<and> g2 = g \<and> ns2 = ns1)"
| "followsWrite g rs = False"

subsection \<open>The key of the status set as the specification words it\<close>

text \<open>
  The string the specification names for an object in the status set, in its words:
  \<open>group/version/resource\<close>.
\<close>

definition claimedStatusKey :: "gvr \<Rightarrow> string" where
  "claimedStatusKey g = Group g @ ''/'' @ Version g @ ''/'' @ Resource g"

section \<open>Concrete archives and clusters\<close>

text \<open>
  A file system held in tables: the listing of every directory, the bytes of every
  file, and what the bytes decode to. Removals and the extraction succeed; no file is a
  JSON byte array.
\<close>

definition memSys ::
  "(string \<times> (string \<times> bool) list) list \<Rightarrow> (string \<times> bytes) list \<Rightarrow> (bytes \<times> jmap) list \<Rightarrow>
   (bytes \<times> (string \<times> bool) list) list \<Rightarrow> sys" where
  "memSys dirs files objects boolMaps =
     \<lparr>TempDir = (\<lambda>prefix. Inr ''/b''),
      ReadDir = (\<lambda>p. case map_of dirs p of None \<Rightarrow> Inl (PathNotExist p) | Some es \<Rightarrow> Inr es),
      ReadFile = (\<lambda>p. case map_of files p of None \<Rightarrow> Inl (PathNotExist p) | Some b \<Rightarrow> Inr b),
      Stat = (\<lambda>p. if map_of dirs p = None \<and> map_of files p = None
                    then Some (PathNotExist p) else None),
      RemoveAll = (\<lambda>p. None),
      Remove = (\<lambda>p. None),
      LoadFromTarGzip = (\<lambda>f d. None),
      UnmarshalBytes = (\<lambda>b. Inl (ErrorString ''not a byte array'')),
      UnmarshalMap = (\<lambda>b. case map_of objects b of
                            None \<Rightarrow> Inl (ErrorString ''not an object'')
                          | Some m \<Rightarrow> Inr m),
      UnmarshalBoolMap = (\<lambda>b. case map_of boolMaps b of
                                None \<Rightarrow> Inl (ErrorString ''not a map of booleans'')
                              | Some m \<Rightarrow> Inr m)\<rparr>"

text \<open>
  A REST mapping that knows the kinds \<open>A\<close>, \<open>Namespace\<close> and
  \<open>CustomResourceDefinition\<close>, all cluster-scoped.
\<close>

definition exMapping :: restMapping where
  "exMapping k =
     (if Kind k = ''A'' then Inr (\<lparr>Group = ''g'', Version = ''v1'', Resource = ''as''\<rparr>, False)
      else if Kind k = ''Namespace''
        then Inr (\<lparr>Group = [], Version = ''v1'', Resource = ''namespaces''\<rparr>, False)
      else if Kind k = ''CustomResourceDefinition''
        then Inr (\<lparr>Group = ''apiextensions.k8s.io'', Version = kindVersion k,
                   Resource = ''customresourcedefinitions''\<rparr>, False)
      else Inl (ErrorString ''no matches for kind''))"

definition noTransformers :: transformerMap where
  "noTransformers gr = None"

text \<open>
  An archive under \<open>/b\<close>: \<open>a\<close> and \<open>c\<close> without owners, \<open>b\<close> owned by \<open>a\<close>, and \<open>x\<close>
  owned by \<open>z\<close>, which is not in the archive; the status set names the resource of
  \<open>a\<close> and \<open>c\<close>.
\<close>

definition objA :: jmap where
  "objA = [(''metadata'', JObj [(''name'', JStr ''a'')])]"

definition objC :: jmap where
  "objC = [(''metadata'', JObj [(''name'', JStr ''c'')])]"

definition objB :: jmap where
  "objB = [(''metadata'', JObj [(''name'', JStr ''b''), (''namespace'', JStr ''ns1''),
             (''ownerReferences'',
              JArr [JObj [(''apiVersion'', JStr ''g/v1''), (''kind'', JStr ''A''),
                          (''name'', JStr ''a'')]])])]"

definition objX :: jmap where
  "objX = [(''metadata'', JObj [(''name'', JStr ''x''), (''namespace'', JStr ''ns1''),
             (''ownerReferences'',
              JArr [JObj [(''apiVersion'', JStr ''g/v1''), (''kind'', JStr ''A''),
                          (''name'', JStr ''z'')]])])]"

definition exSys :: sys where
  "exSys = memSys
     [(''/b'', [(''as.g#v1'', True), (''bs.g#v1'', True), (''filters'', True)]),
      (''/b/as.g#v1'', [(''a.json'', False), (''c.json'', False)]),
      (''/b/bs.g#v1'', [(''ns1'', True)]),
      (''/b/bs.g#v1/ns1'', [(''b.json'', False), (''x.json'', False)]),
      (''/b/filters'', [(''statussubresource.json'', False)])]
     [(''/b/as.g#v1/a.json'', ''A''), (''/b/as.g#v1/c.json'', ''C''),
      (''/b/bs.g#v1/ns1/b.json'', ''B''),
      (''/b/bs.g#v1/ns1/x.json'', ''X''), (''/b/filters/statussubresource.json'', ''S'')]
     [(''A'', objA), (''B'', objB), (''C'', objC), (''X'', objX)]
     [(''S'', [(''g/v1, Resource=as'', True)])]"

text \<open>
  A cluster held in a table keyed by resource, namespace and name. A created object
  gets a uid and a resource version; names in \<open>rejected\<close> are refused on CREATE and UPDATE;
  a status write always succeeds.
\<close>

type_synonym memCluster = "((string \<times> string \<times> string) \<times> jmap) list"

definition metadataOf :: "jmap \<Rightarrow> jmap" where
  "metadataOf obj = (case assertMap (mapIndex obj ''metadata'') of None \<Rightarrow> [] | Some m \<Rightarrow> m)"

definition metadataName :: "jmap \<Rightarrow> string" where
  "metadataName obj = stringOrEmpty (mapIndex (metadataOf obj) ''name'')"

definition withUid :: "jmap \<Rightarrow> jmap" where
  "withUid obj =
     AList.update ''metadata''
       (JObj (AList.update ''uid'' (JStr (''uid-'' @ metadataName obj))
                (AList.update ''resourceVersion'' (JStr ''1'') (metadataOf obj)))) obj"

definition memApi :: "restMapping \<Rightarrow> string list \<Rightarrow> memCluster api" where
  "memApi rfg rejected =
     \<lparr>ResourceForGVK = (\<lambda>c. rfg),
      drGet = (\<lambda>c g ns name.
                 case map_of c (Resource g, ns, name) of
                   None \<Rightarrow> Inl (StatusNotFound name)
                 | Some obj \<Rightarrow> Inr obj),
      drCreate = (\<lambda>c g ns obj.
                    if metadataName obj \<in> set rejected then (Inl (ErrorString ''rejected''), c)
                    else (Inr (withUid obj),
                          ((Resource g, ns, metadataName obj), withUid obj) # c)),
      drUpdate = (\<lambda>c g ns obj.
                    if metadataName obj \<in> set rejected then (Inl (ErrorString ''rejected''), c)
                    else (Inr obj, ((Resource g, ns, metadataName obj), obj) # c)),
      drUpdateStatus = (\<lambda>c g ns obj. (Inr obj, c))\<rparr>"

text \<open>
  The value of a call that returned normally.
\<close>

definition isOkR :: "'a result \<Rightarrow> bool" where
  "isOkR r = (case r of Ok _ \<Rightarrow> True | _ \<Rightarrow> False)"

definition okOr :: "'a \<Rightarrow> 'a result \<Rightarrow> 'a" where
  "okOr d r = (case r of Ok x \<Rightarrow> x | _ \<Rightarrow> d)"

text \<open>
  The graph built from the example archive and its replay on the empty cluster.
\<close>

definition exGraph :: graph where
  "exGraph = okOr emptyGraph (generateDependencyGraph exSys exMapping ''/b'' noTransformers emptyGraph)"

definition exStatusSet :: "string \<rightharpoonup> bool" where
  "exStatusSet = map_of [(''g/v1, Resource=as'', True)]"

definition exReplay :: "unit result \<times> memCluster replay" where
  "exReplay = createFromDependencyGraph (memApi exMapping []) [] (ownerToDependentsList exGraph)
                Map.empty (numOwnerReferences exGraph) (toRestore exGraph) exStatusSet"

definition exA :: restoreObj where
  "exA = \<lparr>Name = ''a'', Namespace = [],
          GVR = \<lparr>Group = ''g'', Version = ''v1'', Resource = ''as''\<rparr>,
          ResourceConfigPath = ''/b/as.g#v1/a.json'', Data = Some objA\<rparr>"

definition exB :: restoreObj where
  "exB = \<lparr>Name = ''b'', Namespace = ''ns1'',
          GVR = \<lparr>Group = ''g'', Version = ''v1'', Resource = ''bs''\<rparr>,
          ResourceConfigPath = ''/b/bs.g#v1/ns1/b.json'', Data = Some objB\<rparr>"

definition exX :: restoreObj where
  "exX = \<lparr>Name = ''x'', Namespace = ''ns1'',
          GVR = \<lparr>Group = ''g'', Version = ''v1'', Resource = ''bs''\<rparr>,
          ResourceConfigPath = ''/b/bs.g#v1/ns1/x.json'', Data = Some objX\<rparr>"

text \<open>
  The operator's collaborators, all succeeding, and a restore request for a local
  archive.
\<close>

definition exOps :: "memCluster operator" where
  "exOps =
     \<lparr>downloadFromS3 = (\<lambda>spec. (''/tmp/backup.tar.gz'', None)),
      GetEncryptionConfig = (\<lambda>c ns name. Inr ''config''),
      GetEncryptionTransformers = (\<lambda>config. Inr noTransformers),
      prune = (\<lambda>c name path timeout transformers. (None, c))\<rparr>"

definition exSpec :: restoreSpec where
  "exSpec =
     \<lparr>BackupFilename = ''backup.tar.gz'',
      StorageLocation = Some \<lparr>Local = ''/backups'', S3 = None\<rparr>,
      EncryptionConfigName = ''enc'', Prune = False, DeleteTimeout = 0\<rparr>"

text \<open>
  An archive whose only object carries an owner reference without an \<open>apiVersion\<close>.
\<close>

definition objBad :: jmap where
  "objBad = [(''metadata'', JObj [(''name'', JStr ''bad''),
               (''ownerReferences'', JArr [JObj [(''kind'', JStr ''A''), (''name'', JStr ''a'')]])])]"

definition badSys :: sys where
  "badSys = memSys
     [(''/b'', [(''bs.g#v1'', True), (''filters'', True)]),
      (''/b/bs.g#v1'', [(''bad.json'', False)]),
      (''/b/filters'', [(''statussubresource.json'', False)])]
     [(''/b/bs.g#v1/bad.json'', ''BAD''), (''/b/filters/statussubresource.json'', ''S'')]
     [(''BAD'', objBad)]
     [(''S'', [])]"

definition exBad :: restoreObj where
  "exBad = \<lparr>Name = ''bad'', Namespace = [],
            GVR = \<lparr>Group = ''g'', Version = ''v1'', Resource = ''bs''\<rparr>,
            ResourceConfigPath = ''/b/bs.g#v1/bad.json'', Data = Some objBad\<rparr>"

text \<open>
  The example archive restored on the empty cluster, which keeps a journal.
\<close>

definition journalRun :: "(memCluster \<times> request list) run" where
  "journalRun = restoreArchive exSys (recording (memApi exMapping [])) (unrecorded exOps)
                  ([], []) exSpec ''/b'' noTransformers"

text \<open>
  An archive with \<open>a\<close> alone, whose status set is keyed \<open>g/v1/as\<close>, restored on the
  empty cluster, which keeps a journal.
\<close>

definition slashSys :: sys where
  "slashSys = memSys
     [(''/b'', [(''as.g#v1'', True), (''filters'', True)]),
      (''/b/as.g#v1'', [(''a.json'', False)]),
      (''/b/filters'', [(''statussubresource.json'', False)])]
     [(''/b/as.g#v1/a.json'', ''A''), (''/b/filters/statussubresource.json'', ''S'')]
     [(''A'', objA)]
     [(''S'', [(''g/v1/as'', True)])]"

definition slashRun :: "(memCluster \<times> request list) run" where
  "slashRun = restoreArchive slashSys (recording (memApi exMapping [])) (unrecorded exOps)
                ([], []) exSpec ''/b'' noTransformers"

text \<open>
  An archive with nothing in it.
\<close>

definition emptySys :: sys where
  "emptySys = memSys [(''/b'', [])] [] [] []"

text \<open>
  An archive with \<open>e\<close>, whose owner-reference list is present and empty, and \<open>f\<close>, which has
  no such field.
\<close>

definition objE :: jmap where
  "objE = [(''metadata'', JObj [(''name'', JStr ''e''), (''ownerReferences'', JArr [])])]"

definition objF :: jmap where
  "objF = [(''metadata'', JObj [(''name'', JStr ''f'')])]"

definition emptyRefsSys :: sys where
  "emptyRefsSys = memSys
     [(''/b'', [(''as.g#v1'', True), (''filters'', True)]),
      (''/b/as.g#v1'', [(''e.json'', False), (''f.json'', False)]),
      (''/b/filters'', [(''statussubresource.json'', False)])]
     [(''/b/as.g#v1/e.json'', ''E''), (''/b/as.g#v1/f.json'', ''F''),
      (''/b/filters/statussubresource.json'', ''S'')]
     [(''E'', objE), (''F'', objF)]
     [(''S'', [])]"

definition exE :: restoreObj where
  "exE = \<lparr>Name = ''e'', Namespace = [],
          GVR = \<lparr>Group = ''g'', Version = ''v1'', Resource = ''as''\<rparr>,
          ResourceConfigPath = ''/b/as.g#v1/e.json'', Data = Some objE\<rparr>"

definition exF :: restoreObj where
  "exF = \<lparr>Name = ''f'', Namespace = [],
          GVR = \<lparr>Group = ''g'', Version = ''v1'', Resource = ''as''\<rparr>,
          ResourceConfigPath = ''/b/as.g#v1/f.json'', Data = Some objF\<rparr>"

definition emptyRefsRun :: "memCluster run" where
  "emptyRefsRun = OnRestoreChange emptyRefsSys (memApi exMapping []) exOps [] exSpec"

text \<open>
  An archive with the definition \<open>ws.g\<close> and the object \<open>w\<close>, whose only owner is that
  definition.
\<close>

definition objCRD :: jmap where
  "objCRD = [(''metadata'', JObj [(''name'', JStr ''ws.g'')])]"

definition objW :: jmap where
  "objW = [(''metadata'', JObj [(''name'', JStr ''w''),
             (''ownerReferences'',
              JArr [JObj [(''apiVersion'', JStr ''apiextensions.k8s.io/v1beta1''),
                          (''kind'', JStr ''CustomResourceDefinition''),
                          (''name'', JStr ''ws.g'')]])])]"

definition crdSys :: sys where
  "crdSys = memSys
     [(''/b'', [(''customresourcedefinitions.apiextensions.k8s.io#v1beta1'', True),
                (''filters'', True), (''ws.g#v1'', True)]),
      (''/b/customresourcedefinitions.apiextensions.k8s.io#v1beta1'', [(''ws.g.json'', False)]),
      (''/b/ws.g#v1'', [(''w.json'', False)]),
      (''/b/filters'', [(''statussubresource.json'', False)])]
     [(''/b/customresourcedefinitions.apiextensions.k8s.io#v1beta1/ws.g.json'', ''CRD''),
      (''/b/ws.g#v1/w.json'', ''W''),
      (''/b/filters/statussubresource.json'', ''S'')]
     [(''CRD'', objCRD), (''W'', objW)]
     [(''S'', [])]"

definition exW :: restoreObj where
  "exW = \<lparr>Name = ''w'', Namespace = [],
          GVR = \<lparr>Group = ''g'', Version = ''v1'', Resource = ''ws''\<rparr>,
          ResourceConfigPath = ''/b/ws.g#v1/w.json'', Data = Some objW\<rparr>"

definition crdRun :: "memCluster run" where
  "crdRun = OnRestoreChange crdSys (memApi exMapping []) exOps [] exSpec"

text \<open>
  The example archive restored on a cluster that refuses \<open>a\<close>, and restored from a
  request without a storage location.
\<close>

definition rejectRun :: "memCluster run" where
  "rejectRun = OnRestoreChange exSys (memApi exMapping [''a'']) exOps [] exSpec"

definition noLocationRun :: "memCluster run" where
  "noLocationRun =
     OnRestoreChange exSys (memApi exMapping []) exOps [] (exSpec\<lparr>StorageLocation := None\<rparr>)"

text \<open>
  The replay of the example graph on a cluster that refuses \<open>a\<close>.
\<close>

definition exRejectReplay :: "unit result \<times> memCluster replay" where
  "exRejectReplay = createFromDependencyGraph (memApi exMapping [''a'']) []
                      (ownerToDependentsList exGraph) Map.empty (numOwnerReferences exGraph)
                      (toRestore exGraph) exStatusSet"

section \<open>Lemmas\<close>

lemma bindR_Ok_iff: "bindR m f = Ok y \<longleftrightarrow> (\<exists>x. m = Ok x \<and> f x = Ok y)"
  by (cases m) (simp_all add: bindR_def)

lemma foldObjects_append:
  "foldObjects rfg bp (xs @ ys) g = bindR (foldObjects rfg bp xs g) (foldObjects rfg bp ys)"
  by (induction xs arbitrary: g) (auto simp add: bindR_def split: result.splits)

lemma addTo_as_fold:
  "addToOwnersToDependentsList sys rfg bp path aad gvr' tr g = Ok g'
   \<Longrightarrow> foldObjects rfg bp (readObjects sys path aad gvr' tr) g = Ok g'"
  by (auto simp add: addToOwnersToDependentsList_def readObjects_def bindR_def
           split: result.splits option.splits)

lemma namespaceFilesLoop_as_fold:
  "namespaceFilesLoop sys rfg bp nsDir ns gvr' tr files g = Ok g'
   \<Longrightarrow> foldObjects rfg bp (namespaceObjects sys nsDir ns gvr' tr files) g = Ok g'"
proof (induction files arbitrary: g)
  case Nil
  then show ?case by (simp add: namespaceObjects_def)
next
  case (Cons f files)
  from Cons.prems obtain g1 where
    a: "addToOwnersToDependentsList sys rfg bp (Join [nsDir, fst f])
          (ns @ ''#'' @ TrimSuffix (fst f) ''.json'') gvr' tr g = Ok g1"
    and b: "namespaceFilesLoop sys rfg bp nsDir ns gvr' tr files g1 = Ok g'"
    by (auto simp add: bindR_Ok_iff Let_def)
  have "foldObjects rfg bp (namespaceObjects sys nsDir ns gvr' tr files) g1 = Ok g'"
    using Cons.IH[OF b] .
  moreover note addTo_as_fold[OF a]
  ultimately show ?case
    by (simp add: namespaceObjects_def foldObjects_append bindR_def)
qed

lemma resourceDirLoop_as_fold:
  "resourceDirLoop sys rfg bp gvk gvr' tr entries g = Ok g'
   \<Longrightarrow> foldObjects rfg bp (resourceDirObjects sys bp gvk gvr' tr entries) g = Ok g'"
proof (induction entries arbitrary: g)
  case Nil
  then show ?case by (simp add: resourceDirObjects_def)
next
  case (Cons e entries)
  show ?case
  proof (cases "snd e")
    case True
    with Cons.prems obtain files g1 where
      rd: "ReadDir sys (Join [bp, gvk, fst e]) = Inr files"
      and a: "namespaceFilesLoop sys rfg bp (Join [bp, gvk, fst e]) (fst e) gvr' tr files g = Ok g1"
      and b: "resourceDirLoop sys rfg bp gvk gvr' tr entries g1 = Ok g'"
      by (auto simp add: bindR_Ok_iff Let_def split: sum.splits)
    from Cons.IH[OF b] namespaceFilesLoop_as_fold[OF a] True rd show ?thesis
      by (simp add: resourceDirObjects_def foldObjects_append bindR_def)
  next
    case False
    with Cons.prems obtain g1 where
      a: "addToOwnersToDependentsList sys rfg bp (Join [Join [bp, gvk], fst e])
            (TrimSuffix (fst e) ''.json'') gvr' tr g = Ok g1"
      and b: "resourceDirLoop sys rfg bp gvk gvr' tr entries g1 = Ok g'"
      by (auto simp add: bindR_Ok_iff Let_def)
    from Cons.IH[OF b] addTo_as_fold[OF a] False show ?thesis
      by (simp add: resourceDirObjects_def foldObjects_append bindR_def)
  qed
qed

lemma backupEntriesLoop_as_fold:
  "backupEntriesLoop sys rfg bp tm entries g = Ok g'
   \<Longrightarrow> foldObjects rfg bp (concat (map (backupEntryObjects sys bp tm) entries)) g = Ok g'"
proof (induction entries arbitrary: g)
  case Nil
  then show ?case by simp
next
  case (Cons e entries)
  show ?case
  proof (cases "fst e = ''filters''")
    case True
    with Cons show ?thesis by (simp add: backupEntryObjects_def)
  next
    case False
    with Cons.prems obtain gvr' where
      gv: "getGVR (fst e) = Ok gvr'"
      and c: "(case ReadDir sys (Join [bp, fst e]) of
                 Inl err \<Rightarrow> Error err
               | Inr es \<Rightarrow>
                   bindR (resourceDirLoop sys rfg bp (fst e) gvr'
                            (tm (Group gvr', Resource gvr')) es g)
                     (backupEntriesLoop sys rfg bp tm entries)) = Ok g'"
      by (auto simp add: bindR_Ok_iff Let_def)
    then obtain es where rd: "ReadDir sys (Join [bp, fst e]) = Inr es"
      by (cases "ReadDir sys (Join [bp, fst e])") auto
    with c obtain g1 where
      a: "resourceDirLoop sys rfg bp (fst e) gvr' (tm (Group gvr', Resource gvr')) es g = Ok g1"
      and b: "backupEntriesLoop sys rfg bp tm entries g1 = Ok g'"
      by (auto simp add: bindR_Ok_iff)
    from Cons.IH[OF b] resourceDirLoop_as_fold[OF a] False gv rd show ?thesis
      by (simp add: backupEntryObjects_def foldObjects_append bindR_def)
  qed
qed

lemma generate_as_fold:
  "generateDependencyGraph sys rfg bp tm g = Ok g'
   \<Longrightarrow> foldObjects rfg bp (archiveObjects sys tm bp) g = Ok g'"
  by (auto simp add: generateDependencyGraph_def archiveObjects_def
           split: sum.splits dest: backupEntriesLoop_as_fold)

lemma dependentsOf_appendDependent:
  "dependentsOf (appendDependent deps q c) p =
     (if p = q then dependentsOf deps p @ [c] else dependentsOf deps p)"
  by (simp add: appendDependent_def dependentsOf_def update_conv' split: option.splits)

lemma replicate_snoc_count: "[c] @ replicate n c = replicate (Suc n) c"
  by simp

lemma ownersLoop_effect:
  "ownersLoop rfg bp c refs deps n = Ok (deps', n')
   \<Longrightarrow> n' = n + int (length refs)
       \<and> (\<forall>p. dependentsOf deps' p =
                dependentsOf deps p @ replicate (count_list (ownerPathsOfRefs rfg bp c refs) p) c)"
proof (induction refs arbitrary: deps n)
  case Nil
  then show ?case by simp
next
  case (Cons owner rest)
  show ?case
  proof (cases "assertMap owner")
    case None
    with Cons.prems have "ownersLoop rfg bp c rest deps (n + 1) = Ok (deps', n')" by simp
    from Cons.IH[OF this] None show ?thesis by simp
  next
    case (Some d)
    show ?thesis
    proof (cases "ownerRestoreObj rfg bp c d")
      case (Ok oo)
      show ?thesis
      proof (cases oo)
        case None
        with Cons.prems Some Ok have "ownersLoop rfg bp c rest deps (n + 1) = Ok (deps', n')"
          by simp
        from Cons.IH[OF this] Some Ok None show ?thesis by simp
      next
        case (Some ownerObj)
        with Cons.prems \<open>assertMap owner = Some d\<close> Ok
        have "ownersLoop rfg bp c rest (appendDependent deps (ResourceConfigPath ownerObj) c)
                (n + 1) = Ok (deps', n')"
          by simp
        from Cons.IH[OF this] \<open>assertMap owner = Some d\<close> Ok Some show ?thesis
          by (simp add: dependentsOf_appendDependent replicate_append_same)
      qed
    next
      case (Error e)
      with Cons.prems Some show ?thesis by simp
    next
      case (Panic p)
      with Cons.prems Some show ?thesis by simp
    qed
  qed
qed

lemma length_ownerPathsOfRefs: "length (ownerPathsOfRefs rfg bp c refs) \<le> length refs"
  by (induction refs) (auto split: option.splits result.splits)

lemma ownerPaths_nonempty_refs: "ownerPaths rfg bp c \<noteq> [] \<Longrightarrow> ownerRefsOf c \<noteq> None"
  by (cases "ownerRefsOf c") (simp_all add: ownerPaths_def)

lemma addRestoreObj_effect:
  assumes "addRestoreObj rfg bp c g = Ok g'"
  shows "toRestore g' = toRestore g @ (if ownerRefsOf c = None then [c] else [])"
    and "dependentsOf (ownerToDependentsList g') p =
           dependentsOf (ownerToDependentsList g) p
             @ replicate (count_list (ownerPaths rfg bp c) p) c"
    and "numOwnerReferences g' =
           (case ownerRefsOf c of
              None \<Rightarrow> numOwnerReferences g
            | Some refs \<Rightarrow> (numOwnerReferences g)(ResourceConfigPath c \<mapsto> int (length refs)))"
proof -
  show "toRestore g' = toRestore g @ (if ownerRefsOf c = None then [c] else [])"
    using assms
    by (auto simp add: addRestoreObj_def bindR_def split: option.splits result.splits)
next
  show "dependentsOf (ownerToDependentsList g') p =
           dependentsOf (ownerToDependentsList g) p
             @ replicate (count_list (ownerPaths rfg bp c) p) c"
  proof (cases "ownerRefsOf c")
    case None
    with assms show ?thesis by (auto simp add: addRestoreObj_def ownerPaths_def)
  next
    case (Some refs)
    with assms obtain deps' n' where
      l: "ownersLoop rfg bp c refs (ownerToDependentsList g) 0 = Ok (deps', n')"
      and g': "ownerToDependentsList g' = deps'"
      by (auto simp add: addRestoreObj_def bindR_def split: result.splits)
    from ownersLoop_effect[OF l] g' Some show ?thesis by (simp add: ownerPaths_def)
  qed
next
  show "numOwnerReferences g' =
           (case ownerRefsOf c of
              None \<Rightarrow> numOwnerReferences g
            | Some refs \<Rightarrow> (numOwnerReferences g)(ResourceConfigPath c \<mapsto> int (length refs)))"
  proof (cases "ownerRefsOf c")
    case None
    with assms show ?thesis by (auto simp add: addRestoreObj_def)
  next
    case (Some refs)
    with assms obtain deps' n' where
      l: "ownersLoop rfg bp c refs (ownerToDependentsList g) 0 = Ok (deps', n')"
      and g': "numOwnerReferences g' = (numOwnerReferences g)(ResourceConfigPath c \<mapsto> n')"
      by (auto simp add: addRestoreObj_def bindR_def split: result.splits)
    from ownersLoop_effect[OF l] g' Some show ?thesis by simp
  qed
qed

lemma foldObjects_toRestore:
  "foldObjects rfg bp cs g = Ok g'
   \<Longrightarrow> toRestore g' = toRestore g @ filter (\<lambda>c. ownerRefsOf c = None) cs"
proof (induction cs arbitrary: g)
  case Nil
  then show ?case by simp
next
  case (Cons c cs)
  then obtain g1 where a: "addRestoreObj rfg bp c g = Ok g1"
    and b: "foldObjects rfg bp cs g1 = Ok g'"
    by (auto simp add: bindR_Ok_iff)
  from Cons.IH[OF b] addRestoreObj_effect(1)[OF a] show ?case by simp
qed

lemma foldObjects_dependents:
  "foldObjects rfg bp cs g = Ok g'
   \<Longrightarrow> dependentsOf (ownerToDependentsList g') p =
         dependentsOf (ownerToDependentsList g) p
           @ concat (map (\<lambda>c. replicate (count_list (ownerPaths rfg bp c) p) c) cs)"
proof (induction cs arbitrary: g)
  case Nil
  then show ?case by simp
next
  case (Cons c cs)
  then obtain g1 where a: "addRestoreObj rfg bp c g = Ok g1"
    and b: "foldObjects rfg bp cs g1 = Ok g'"
    by (auto simp add: bindR_Ok_iff)
  from Cons.IH[OF b] addRestoreObj_effect(2)[OF a] show ?case by simp
qed

lemma foldObjects_counter_other:
  "foldObjects rfg bp cs g = Ok g' \<Longrightarrow> p \<notin> ResourceConfigPath ` set cs
   \<Longrightarrow> numOwnerReferences g' p = numOwnerReferences g p"
proof (induction cs arbitrary: g)
  case Nil
  then show ?case by simp
next
  case (Cons c cs)
  then obtain g1 where a: "addRestoreObj rfg bp c g = Ok g1"
    and b: "foldObjects rfg bp cs g1 = Ok g'"
    by (auto simp add: bindR_Ok_iff)
  from Cons.prems have "p \<notin> ResourceConfigPath ` set cs" and "p \<noteq> ResourceConfigPath c"
    by auto
  with Cons.IH[OF b] addRestoreObj_effect(3)[OF a] show ?case
    by (simp split: option.splits)
qed

lemma foldObjects_counter:
  "foldObjects rfg bp cs g = Ok g' \<Longrightarrow> distinct (map ResourceConfigPath cs)
   \<Longrightarrow> c \<in> set cs \<Longrightarrow> ownerRefsOf c = Some refs
   \<Longrightarrow> numOwnerReferences g' (ResourceConfigPath c) = Some (int (length refs))"
proof (induction cs arbitrary: g)
  case Nil
  then show ?case by simp
next
  case (Cons x cs)
  then obtain g1 where a: "addRestoreObj rfg bp x g = Ok g1"
    and b: "foldObjects rfg bp cs g1 = Ok g'"
    by (auto simp add: bindR_Ok_iff)
  show ?case
  proof (cases "c \<in> set cs")
    case True
    with Cons.IH[OF b] Cons.prems show ?thesis by simp
  next
    case False
    with Cons.prems have cx: "c = x" by simp
    from Cons.prems have "ResourceConfigPath x \<notin> ResourceConfigPath ` set cs" by simp
    from foldObjects_counter_other[OF b this] addRestoreObj_effect(3)[OF a] cx Cons.prems(4)
    show ?thesis by simp
  qed
qed

lemma succeeded_snoc:
  "succeeded (tried @ [a]) =
     (if outcome a = Ok () then insert (ResourceConfigPath (applied a)) (succeeded tried)
      else succeeded tried)"
  by (auto simp add: succeeded_def)

lemma succeeded_nth:
  "p \<in> succeeded tried
   \<Longrightarrow> \<exists>j < length tried. ResourceConfigPath (applied (tried ! j)) = p \<and> outcome (tried ! j) = Ok ()"
proof -
  assume "p \<in> succeeded tried"
  then obtain a where a: "a \<in> set tried" "outcome a = Ok ()" "ResourceConfigPath (applied a) = p"
    unfolding succeeded_def by blast
  from a(1) obtain j where "j < length tried" "tried ! j = a"
    unfolding in_set_conv_nth by blast
  with a(2,3) show ?thesis by blast
qed

lemma parentsFirst_snoc:
  assumes "parentsFirst rfg bp tried"
      and "set (ownerPaths rfg bp (applied a)) \<subseteq> succeeded tried"
  shows "parentsFirst rfg bp (tried @ [a])"
  unfolding parentsFirst_def
proof (intro allI impI ballI)
  fix i p
  assume i: "i < length (tried @ [a])"
    and p: "p \<in> set (ownerPaths rfg bp (applied ((tried @ [a]) ! i)))"
  show "\<exists>j<i. ResourceConfigPath (applied ((tried @ [a]) ! j)) = p
              \<and> outcome ((tried @ [a]) ! j) = Ok ()"
  proof (cases "i < length tried")
    case True
    with p have "p \<in> set (ownerPaths rfg bp (applied (tried ! i)))"
      by (simp add: nth_append)
    with assms(1) True obtain j where "j < i"
      "ResourceConfigPath (applied (tried ! j)) = p" "outcome (tried ! j) = Ok ()"
      by (auto simp add: parentsFirst_def)
    moreover from \<open>j < i\<close> True have "(tried @ [a]) ! j = tried ! j"
      by (simp add: nth_append)
    ultimately show ?thesis by auto
  next
    case False
    with i have ii: "i = length tried" by simp
    with p have "p \<in> set (ownerPaths rfg bp (applied a))" by simp
    with assms(2) have "p \<in> succeeded tried" by auto
    from succeeded_nth[OF this] obtain j where "j < length tried"
      "ResourceConfigPath (applied (tried ! j)) = p" "outcome (tried ! j) = Ok ()"
      by auto
    moreover from \<open>j < length tried\<close> have "(tried @ [a]) ! j = tried ! j"
      by (simp add: nth_append)
    ultimately show ?thesis using ii by auto
  qed
qed

lemma count_list_replicate: "count_list (replicate n x) y = (if x = y then n else 0)"
  by (induction n) auto

lemma count_list_concat_replicate:
  "distinct cs \<Longrightarrow> c \<in> set cs
   \<Longrightarrow> count_list (concat (map (\<lambda>x. replicate (f x) x) cs)) c = f c"
  by (induction cs) (auto simp add: count_list_replicate)

lemma count_list_concat_replicate_notin:
  "c \<notin> set cs \<Longrightarrow> count_list (concat (map (\<lambda>x. replicate (f x) x) cs)) c = 0"
  by (induction cs) (auto simp add: count_list_replicate)

lemma set_concat_replicate:
  "d \<in> set (concat (map (\<lambda>x. replicate (f x) x) cs)) \<Longrightarrow> d \<in> set cs \<and> 0 < f d"
  by (induction cs) (auto split: if_splits)

lemma length_filter_insert:
  "q \<notin> S \<Longrightarrow> length (filter (\<lambda>p. p \<in> insert q S) xs)
                 = length (filter (\<lambda>p. p \<in> S) xs) + count_list xs q"
  by (induction xs) auto

lemma length_filter_full:
  "length xs \<le> length (filter P xs) \<Longrightarrow> \<forall>x \<in> set xs. P x"
proof (induction xs)
  case Nil
  show ?case by simp
next
  case (Cons x xs)
  have le: "length (filter P xs) \<le> length xs" by (rule length_filter_le)
  show ?case
  proof (cases "P x")
    case True
    from Cons.prems True have "length xs \<le> length (filter P xs)" by simp
    from Cons.IH[OF this] True show ?thesis by simp
  next
    case False
    from Cons.prems False have "Suc (length xs) \<le> length (filter P xs)" by simp
    with le have False by linarith
    then show ?thesis ..
  qed
qed

lemma notifyDependents_effect:
  assumes "distinct (map ResourceConfigPath cs)"
      and "\<forall>d \<in> set ds. d \<in> set cs"
      and "\<forall>c \<in> set cs. lookupInt num (ResourceConfigPath c) = A c + int (count_list ds c)"
      and "\<forall>c \<in> set cs. 0 \<le> A c"
      and "\<forall>c \<in> set cs. A c = 0 \<longrightarrow> Good c"
      and "\<forall>c \<in> set queue. Good c"
      and "notifyDependents ds num queue = (num', queue')"
  shows "(\<forall>c \<in> set cs. lookupInt num' (ResourceConfigPath c) = A c)
         \<and> (\<forall>c \<in> set queue'. Good c)"
  using assms(2,3,6,7)
proof (induction ds arbitrary: num queue)
  case Nil
  then show ?case by simp
next
  case (Cons d ds)
  let ?k = "ResourceConfigPath d"
  have dcs: "d \<in> set cs" using Cons.prems(1) by simp
  have numd: "lookupInt num ?k = A d + int (count_list ds d) + 1"
    using Cons.prems(2) dcs by simp
  have Ad: "0 \<le> A d" using assms(4) dcs by blast
  have pos: "lookupInt num ?k > 0"
    using numd Ad by linarith
  let ?num1 = "num(?k \<mapsto> lookupInt num ?k - 1)"
  let ?queue1 = "(if lookupInt ?num1 ?k = 0 then queue @ [d] else queue)"
  have step: "notifyDependents ds ?num1 ?queue1 = (num', queue')"
    using Cons.prems(4) pos by (simp add: Let_def)
  have others: "\<forall>c \<in> set cs. c \<noteq> d \<longrightarrow> ResourceConfigPath c \<noteq> ?k"
  proof (intro ballI impI)
    fix c assume "c \<in> set cs" and "c \<noteq> d"
    moreover have "inj_on ResourceConfigPath (set cs)"
      using assms(1) by (simp add: distinct_map)
    ultimately show "ResourceConfigPath c \<noteq> ?k"
      using dcs by (auto dest: inj_onD)
  qed
  have num1: "\<forall>c \<in> set cs. lookupInt ?num1 (ResourceConfigPath c) = A c + int (count_list ds c)"
  proof
    fix c assume c: "c \<in> set cs"
    show "lookupInt ?num1 (ResourceConfigPath c) = A c + int (count_list ds c)"
    proof (cases "c = d")
      case True
      with numd show ?thesis by (simp add: lookupInt_def)
    next
      case False
      with others c have "ResourceConfigPath c \<noteq> ?k" by simp
      moreover from Cons.prems(2) c False
      have "lookupInt num (ResourceConfigPath c) = A c + int (count_list ds c)" by simp
      ultimately show ?thesis by (simp add: lookupInt_def)
    qed
  qed
  have q1: "\<forall>c \<in> set ?queue1. Good c"
  proof (cases "lookupInt ?num1 ?k = 0")
    case True
    moreover from num1 dcs
    have "lookupInt ?num1 ?k = A d + int (count_list ds d)" by blast
    ultimately have "A d + int (count_list ds d) = 0" by linarith
    with Ad have "A d = 0" by linarith
    with assms(5) dcs have "Good d" by blast
    with Cons.prems(3) True show ?thesis by simp
  next
    case False
    with Cons.prems(3) show ?thesis by simp
  qed
  have "\<forall>d \<in> set ds. d \<in> set cs" using Cons.prems(1) by simp
  from Cons.IH[OF this num1 q1 step] show ?case .
qed

lemma length_ownerPaths:
  "ownerRefsOf c = Some refs \<Longrightarrow> length (ownerPaths rfg bp c) \<le> length refs"
  by (simp add: ownerPaths_def length_ownerPathsOfRefs)

lemma replayInv_snoc_failed:
  assumes inv: "replayInv rfg bp objs st"
      and q: "toRestore (graphOf st) = currObj # rest"
      and r: "r \<noteq> Ok ()"
      and g': "toRestore (graphOf st') = rest"
              "numOwnerReferences (graphOf st') = numOwnerReferences (graphOf st)"
              "ownerToDependentsList (graphOf st') = ownerToDependentsList (graphOf st)"
      and c': "created st' = created st"
      and t': "attempts st' = attempts st @ [\<lparr>applied = currObj, calls = cs, outcome = r\<rparr>]"
  shows "replayInv rfg bp objs st'"
proof -
  let ?a = "\<lparr>applied = currObj, calls = cs, outcome = r\<rparr>"
  have S: "succeeded (attempts st') = succeeded (attempts st)"
    using t' r by (simp add: succeeded_snoc)
  from inv q have cur: "currObj \<in> set objs"
    "set (ownerPaths rfg bp currObj) \<subseteq> succeeded (attempts st)"
    unfolding replayInv_def by simp_all
  from inv have pf: "parentsFirst rfg bp (attempts st)"
    unfolding replayInv_def by blast
  have pf': "parentsFirst rfg bp (attempts st')"
    unfolding t' by (rule parentsFirst_snoc[OF pf]) (simp add: cur(2))
  have ap: "\<forall>a \<in> set (attempts st'). applied a \<in> set objs"
    using inv cur(1) t' unfolding replayInv_def by auto
  have qq: "\<forall>c \<in> set (toRestore (graphOf st')).
              c \<in> set objs \<and> set (ownerPaths rfg bp c) \<subseteq> succeeded (attempts st')"
    using inv q g'(1) S unfolding replayInv_def by simp
  from inv show ?thesis
    unfolding replayInv_def S g'(2,3) c'
    using pf' ap qq S by blast
qed

lemma replayInv_skip:
  assumes inv: "replayInv rfg bp objs st"
      and q: "toRestore (graphOf st) = currObj # rest"
      and g': "toRestore (graphOf st') = rest"
              "numOwnerReferences (graphOf st') = numOwnerReferences (graphOf st)"
              "ownerToDependentsList (graphOf st') = ownerToDependentsList (graphOf st)"
      and c': "created st' = created st"
      and t': "attempts st' = attempts st"
  shows "replayInv rfg bp objs st'"
proof -
  have qq: "\<forall>c \<in> set (toRestore (graphOf st')).
              c \<in> set objs \<and> set (ownerPaths rfg bp c) \<subseteq> succeeded (attempts st)"
    using inv q g'(1) unfolding replayInv_def by simp
  from inv have rest: "(\<forall>c \<in> set objs. \<forall>refs. ownerRefsOf c = Some refs \<longrightarrow>
          lookupInt (numOwnerReferences (graphOf st)) (ResourceConfigPath c) =
            int (length refs)
              - int (length (filter (\<lambda>p. p \<in> succeeded (attempts st))
                               (ownerPaths rfg bp c))))"
      "\<forall>p \<in> succeeded (attempts st). lookupBool (created st) p"
      "parentsFirst rfg bp (attempts st)"
      "\<forall>a \<in> set (attempts st). applied a \<in> set objs"
      "\<forall>p. dependentsOf (ownerToDependentsList (graphOf st)) p =
               concat (map (\<lambda>c. replicate (count_list (ownerPaths rfg bp c) p) c) objs)"
    unfolding replayInv_def by blast+
  show ?thesis
    unfolding replayInv_def t' g'(2,3) c'
    using qq rest by blast
qed

lemma replayInv_snoc_ok:
  assumes inv: "replayInv rfg bp objs st"
      and dist: "distinct (map ResourceConfigPath objs)"
      and q: "toRestore (graphOf st) = currObj # rest"
      and nc: "\<not> lookupBool (created st) (ResourceConfigPath currObj)"
      and nd: "notifyDependents
                 (dependentsOf (ownerToDependentsList (graphOf st)) (ResourceConfigPath currObj))
                 (numOwnerReferences (graphOf st)) rest = (num', queue')"
      and g': "toRestore (graphOf st') = queue'"
              "numOwnerReferences (graphOf st') = num'"
              "ownerToDependentsList (graphOf st') = ownerToDependentsList (graphOf st)"
      and c': "created st' = (created st)(ResourceConfigPath currObj \<mapsto> True)"
      and t': "attempts st' = attempts st @ [\<lparr>applied = currObj, calls = cs, outcome = Ok ()\<rparr>]"
  shows "replayInv rfg bp objs st'"
proof -
  let ?q = "ResourceConfigPath currObj"
  let ?S = "succeeded (attempts st)"
  let ?S' = "insert ?q ?S"
  let ?P = "ownerPaths rfg bp"
  let ?ds = "dependentsOf (ownerToDependentsList (graphOf st)) ?q"
  let ?cs = "filter (\<lambda>c. ownerRefsOf c \<noteq> None) objs"
  let ?A = "\<lambda>c. int (length (the (ownerRefsOf c))) - int (length (filter (\<lambda>p. p \<in> ?S') (?P c)))"
  let ?Good = "\<lambda>c. c \<in> set objs \<and> set (?P c) \<subseteq> ?S'"
  have S': "succeeded (attempts st') = ?S'"
    using t' by (simp add: succeeded_snoc)
  from inv have I1: "\<And>c refs. c \<in> set objs \<Longrightarrow> ownerRefsOf c = Some refs \<Longrightarrow>
          lookupInt (numOwnerReferences (graphOf st)) (ResourceConfigPath c) =
            int (length refs) - int (length (filter (\<lambda>p. p \<in> ?S) (?P c)))"
    unfolding replayInv_def by blast
  from inv have I2: "\<forall>p \<in> ?S. lookupBool (created st) p"
    unfolding replayInv_def by blast
  from inv have I3: "\<forall>c \<in> set (toRestore (graphOf st)). c \<in> set objs \<and> set (?P c) \<subseteq> ?S"
    unfolding replayInv_def by blast
  from inv have I4: "parentsFirst rfg bp (attempts st)"
    unfolding replayInv_def by blast
  from inv have I5: "\<forall>a \<in> set (attempts st). applied a \<in> set objs"
    unfolding replayInv_def by blast
  from inv have I6: "\<And>p. dependentsOf (ownerToDependentsList (graphOf st)) p =
               concat (map (\<lambda>c. replicate (count_list (?P c) p) c) objs)"
    unfolding replayInv_def by blast
  have qS: "?q \<notin> ?S" using nc I2 by blast
  have dobjs: "distinct objs" using dist by (rule distinct_map[THEN iffD1, THEN conjunct1])
  from I3 q have cur: "currObj \<in> set objs" "set (?P currObj) \<subseteq> ?S" by simp_all
  have a1: "distinct (map ResourceConfigPath ?cs)"
    using dist by (rule distinct_map_filter)
  have a2: "\<forall>d \<in> set ?ds. d \<in> set ?cs"
  proof
    fix d assume "d \<in> set ?ds"
    then have "d \<in> set (concat (map (\<lambda>c. replicate (count_list (?P c) ?q) c) objs))"
      by (simp only: I6)
    from set_concat_replicate[OF this] have "d \<in> set objs" "0 < count_list (?P d) ?q"
      by simp_all
    then have "?P d \<noteq> []" by auto
    with \<open>d \<in> set objs\<close> show "d \<in> set ?cs"
      using ownerPaths_nonempty_refs by auto
  qed
  have a3: "\<forall>c \<in> set ?cs. lookupInt (numOwnerReferences (graphOf st)) (ResourceConfigPath c)
              = ?A c + int (count_list ?ds c)"
  proof
    fix c assume "c \<in> set ?cs"
    then obtain refs where c: "c \<in> set objs" "ownerRefsOf c = Some refs" by auto
    have "count_list ?ds c = count_list (?P c) ?q"
      unfolding I6 using dobjs c(1) by (rule count_list_concat_replicate)
    moreover have "length (filter (\<lambda>p. p \<in> ?S') (?P c))
                   = length (filter (\<lambda>p. p \<in> ?S) (?P c)) + count_list (?P c) ?q"
      using qS by (rule length_filter_insert)
    moreover note I1[OF c]
    ultimately show "lookupInt (numOwnerReferences (graphOf st)) (ResourceConfigPath c)
              = ?A c + int (count_list ?ds c)"
      using c(2) by simp
  qed
  have a4: "\<forall>c \<in> set ?cs. 0 \<le> ?A c"
  proof
    fix c assume "c \<in> set ?cs"
    then obtain refs where c: "c \<in> set objs" "ownerRefsOf c = Some refs" by auto
    have "length (filter (\<lambda>p. p \<in> ?S') (?P c)) \<le> length (?P c)" by (rule length_filter_le)
    also have "\<dots> \<le> length refs" by (rule length_ownerPaths[OF c(2)])
    finally have "int (length (filter (\<lambda>p. p \<in> ?S') (?P c))) \<le> int (length refs)"
      by (rule of_nat_mono)
    moreover have "the (ownerRefsOf c) = refs" using c(2) by simp
    ultimately show "0 \<le> ?A c" by (simp only: diff_ge_0_iff_ge)
  qed
  have a5: "\<forall>c \<in> set ?cs. ?A c = 0 \<longrightarrow> ?Good c"
  proof (intro ballI impI)
    fix c assume "c \<in> set ?cs" and z: "?A c = 0"
    then obtain refs where c: "c \<in> set objs" "ownerRefsOf c = Some refs" by auto
    from z c(2) length_ownerPaths[OF c(2), of rfg bp]
    have "length (?P c) \<le> length (filter (\<lambda>p. p \<in> ?S') (?P c))" by simp
    from length_filter_full[OF this] c(1) show "?Good c" by auto
  qed
  have a6: "\<forall>c \<in> set rest. ?Good c"
    using I3 q by auto
  from notifyDependents_effect[where Good = ?Good and A = ?A, OF a1 a2 a3 a4 a5 a6 nd]
  have n1: "\<forall>c \<in> set ?cs. lookupInt num' (ResourceConfigPath c) = ?A c"
    and n2: "\<forall>c \<in> set queue'. ?Good c"
    by blast+
  have J1: "\<forall>c \<in> set objs. \<forall>refs. ownerRefsOf c = Some refs \<longrightarrow>
          lookupInt (numOwnerReferences (graphOf st')) (ResourceConfigPath c) =
            int (length refs)
              - int (length (filter (\<lambda>p. p \<in> succeeded (attempts st')) (?P c)))"
  proof (intro ballI allI impI)
    fix c refs assume c: "c \<in> set objs" "ownerRefsOf c = Some refs"
    then have "c \<in> set ?cs" by simp
    with n1 have "lookupInt num' (ResourceConfigPath c) = ?A c" by blast
    with c(2) show "lookupInt (numOwnerReferences (graphOf st')) (ResourceConfigPath c) =
            int (length refs)
              - int (length (filter (\<lambda>p. p \<in> succeeded (attempts st')) (?P c)))"
      unfolding S' g'(2) by simp
  qed
  have J2: "\<forall>p \<in> succeeded (attempts st'). lookupBool (created st') p"
    unfolding S' c' using I2 by (simp add: lookupBool_def)
  have J3: "\<forall>c \<in> set (toRestore (graphOf st')).
              c \<in> set objs \<and> set (?P c) \<subseteq> succeeded (attempts st')"
    unfolding S' g'(1) using n2 by blast
  have J4: "parentsFirst rfg bp (attempts st')"
    unfolding t' by (rule parentsFirst_snoc[OF I4]) (simp add: cur(2))
  have J5: "\<forall>a \<in> set (attempts st'). applied a \<in> set objs"
    unfolding t' using I5 cur(1) by simp
  have J6: "\<forall>p. dependentsOf (ownerToDependentsList (graphOf st')) p =
               concat (map (\<lambda>c. replicate (count_list (?P c) p) c) objs)"
    unfolding g'(3) using I6 by blast
  show ?thesis
    unfolding replayInv_def using J1 J2 J3 J4 J5 J6 by blast
qed

lemma replayStep_inv:
  assumes inv: "replayInv rfg bp objs st"
      and dist: "distinct (map ResourceConfigPath objs)"
      and step: "replayStep api sset st = Continue st' \<or> replayStep api sset st = Stop st' p"
  shows "replayInv rfg bp objs st'"
proof (cases "toRestore (graphOf st)")
  case Nil
  with step show ?thesis by (simp add: replayStep_def)
next
  case (Cons currObj rest)
  show ?thesis
  proof (cases "lookupBool (created st) (ResourceConfigPath currObj)")
    case True
    with step Cons have st': "st' = st\<lparr>graphOf := (graphOf st)\<lparr>toRestore := rest\<rparr>\<rparr>"
      by (simp add: replayStep_def)
    show ?thesis
      by (rule replayInv_skip[OF inv Cons]) (simp_all add: st')
  next
    case notCreated: False
    obtain r cs c' where rr: "restoreResource api (cluster st) currObj (GVR currObj)
                    (lookupBool sset (gvrString (GVR currObj))) = (r, cs, c')"
      by (metis prod_cases3)
    show ?thesis
    proof (cases r)
      case (Panic p')
      with step Cons notCreated rr
      have st': "st' = st\<lparr>graphOf := (graphOf st)\<lparr>toRestore := rest\<rparr>, cluster := c',
                   attempts := attempts st @ [\<lparr>applied = currObj, calls = cs, outcome = r\<rparr>]\<rparr>"
        by (auto simp add: replayStep_def)
      show ?thesis
        by (rule replayInv_snoc_failed[OF inv Cons, where r = r and cs = cs])
           (simp_all add: st' Panic)
    next
      case (Error e)
      with step Cons notCreated rr
      have st': "st' = st\<lparr>graphOf := (graphOf st)\<lparr>toRestore := rest\<rparr>,
                   errList := errList st @ [e], cluster := c',
                   attempts := attempts st @ [\<lparr>applied = currObj, calls = cs, outcome = r\<rparr>]\<rparr>"
        by (simp add: replayStep_def)
      show ?thesis
        by (rule replayInv_snoc_failed[OF inv Cons, where r = r and cs = cs])
           (simp_all add: st' Error)
    next
      case (Ok u)
      obtain num' queue' where nd: "notifyDependents
                 (dependentsOf (ownerToDependentsList (graphOf st)) (ResourceConfigPath currObj))
                 (numOwnerReferences (graphOf st)) rest = (num', queue')"
        by (metis surj_pair)
      from step Cons notCreated rr Ok nd
      have st': "st' = st\<lparr>graphOf := (graphOf st)\<lparr>toRestore := queue',
                                                  numOwnerReferences := num'\<rparr>,
                   created := (created st)(ResourceConfigPath currObj \<mapsto> True),
                   countRestored := countRestored st + 1, cluster := c',
                   attempts := attempts st @ [\<lparr>applied = currObj, calls = cs, outcome = r\<rparr>]\<rparr>"
        by (simp add: replayStep_def)
      have ru: "r = Ok ()" using Ok by simp
      show ?thesis
        by (rule replayInv_snoc_ok[OF inv dist Cons notCreated nd, where cs = cs])
           (simp_all add: st' ru)
    qed
  qed
qed

lemma createLoop_inv:
  "replayInv rfg bp objs st \<Longrightarrow> distinct (map ResourceConfigPath objs)
   \<Longrightarrow> createLoop api sset st = (st', po) \<Longrightarrow> replayInv rfg bp objs st'"
proof (induction api sset st rule: createLoop.induct)
  case (1 api sset st)
  show ?case
  proof (cases "replayStep api sset st")
    case Done
    with "1.prems"(3) have "st' = st"
      by (subst (asm) createLoop.simps) simp
    with "1.prems"(1) show ?thesis by simp
  next
    case (Continue st1)
    with "1.prems"(3) have l: "createLoop api sset st1 = (st', po)"
      by (subst (asm) createLoop.simps) simp
    have "replayInv rfg bp objs st1"
      using "1.prems"(1,2) Continue by (rule replayStep_inv[where p = undefined, OF _ _ disjI1])
    from "1.IH"[OF Continue this "1.prems"(2) l] show ?thesis .
  next
    case (Stop st1 p)
    with "1.prems"(3) have "st' = st1"
      by (subst (asm) createLoop.simps) simp
    moreover have "replayInv rfg bp objs st1"
      using "1.prems"(1,2) Stop by (rule replayStep_inv[OF _ _ disjI2])
    ultimately show ?thesis by simp
  qed
qed

lemma replayInv_initial:
  assumes gen: "foldObjects rfg bp objs emptyGraph = Ok g"
      and dist: "distinct (map ResourceConfigPath objs)"
  shows "replayInv rfg bp objs
           \<lparr>graphOf = \<lparr>ownerToDependentsList = ownerToDependentsList g,
                       toRestore = toRestore g,
                       numOwnerReferences = numOwnerReferences g\<rparr>,
            created = createdMap, errList = [], countRestored = 0,
            cluster = c, attempts = []\<rparr>"
proof -
  have S: "succeeded [] = {}" by (simp add: succeeded_def)
  have J1: "\<forall>x \<in> set objs. \<forall>refs. ownerRefsOf x = Some refs \<longrightarrow>
          lookupInt (numOwnerReferences g) (ResourceConfigPath x) = int (length refs) - int 0"
    using foldObjects_counter[OF gen dist] by (simp add: lookupInt_def)
  have J3: "\<forall>x \<in> set (toRestore g). x \<in> set objs \<and> set (ownerPaths rfg bp x) \<subseteq> {}"
    using foldObjects_toRestore[OF gen] by (auto simp add: emptyGraph_def ownerPaths_def)
  have J4: "parentsFirst rfg bp []" by (simp add: parentsFirst_def)
  have J6: "\<forall>p. dependentsOf (ownerToDependentsList g) p =
               concat (map (\<lambda>x. replicate (count_list (ownerPaths rfg bp x) p) x) objs)"
    using foldObjects_dependents[OF gen] by (simp add: emptyGraph_def dependentsOf_def)
  show ?thesis
    unfolding replayInv_def using J1 J3 J4 J6 by (simp add: S)
qed

lemma replay_attempts_inv:
  assumes gen: "generateDependencyGraph sys rfg bp tm emptyGraph = Ok g"
      and dist: "distinct (map ResourceConfigPath (archiveObjects sys tm bp))"
      and run: "createFromDependencyGraph api c (ownerToDependentsList g) createdMap
                  (numOwnerReferences g) (toRestore g) sset = (r, st)"
  shows "replayInv rfg bp (archiveObjects sys tm bp) st"
proof -
  let ?st0 = "\<lparr>graphOf = \<lparr>ownerToDependentsList = ownerToDependentsList g,
                       toRestore = toRestore g,
                       numOwnerReferences = numOwnerReferences g\<rparr>,
            created = createdMap, errList = [], countRestored = 0,
            cluster = c, attempts = []\<rparr>"
  obtain po where l: "createLoop api sset ?st0 = (st, po)"
    using run by (auto simp add: createFromDependencyGraph_def split: prod.splits option.splits)
  have "replayInv rfg bp (archiveObjects sys tm bp) ?st0"
    by (rule replayInv_initial[OF generate_as_fold[OF gen] dist])
  from createLoop_inv[OF this dist l] show ?thesis .
qed

lemma splitOn_nonempty: "splitOn c s \<noteq> []"
  by (induction s) (auto split: list.splits)

lemma splitOn_no_sep: "c \<notin> set s \<Longrightarrow> splitOn c s = [s]"
  by (induction s) auto

lemma splitOn_sep:
  "c \<in> set s \<Longrightarrow>
   splitOn c s = takeWhile (\<lambda>x. x \<noteq> c) s # splitOn c (tl (dropWhile (\<lambda>x. x \<noteq> c) s))"
proof (induction s)
  case Nil
  then show ?case by simp
next
  case (Cons x xs)
  show ?case
  proof (cases "x = c")
    case True
    then show ?thesis by simp
  next
    case False
    with Cons.prems have "c \<in> set xs" by simp
    from Cons.IH[OF this] False show ?thesis by simp
  qed
qed

lemma splitOn_single: "splitOn c s = [v] \<Longrightarrow> c \<notin> set s \<and> v = s"
proof (cases "c \<in> set s")
  case True
  assume "splitOn c s = [v]"
  with splitOn_sep[OF True] have "splitOn c (tl (dropWhile (\<lambda>x. x \<noteq> c) s)) = []" by simp
  with splitOn_nonempty show ?thesis by blast
next
  case False
  assume "splitOn c s = [v]"
  with splitOn_no_sep[OF False] False show ?thesis by simp
qed

lemma core_group_split:
  assumes "ParseGroupVersion groupVersion = Inr ([], version)"
  shows "(if length (SplitN2 (CHR ''/'') groupVersion) = 1 then []
          else SplitN2 (CHR ''/'') groupVersion ! 0) = []"
    and "(if length (SplitN2 (CHR ''/'') groupVersion) = 1 then SplitN2 (CHR ''/'') groupVersion ! 0
          else SplitN2 (CHR ''/'') groupVersion ! 1) = version"
proof -
  let ?c = "CHR ''/''"
  have both: "(if length (SplitN2 ?c groupVersion) = 1 then []
          else SplitN2 ?c groupVersion ! 0) = []
      \<and> (if length (SplitN2 ?c groupVersion) = 1 then SplitN2 ?c groupVersion ! 0
          else SplitN2 ?c groupVersion ! 1) = version"
  proof (cases "groupVersion = [] \<or> groupVersion = ''/''")
    case True
    with assms have "version = []" by (auto simp add: ParseGroupVersion_def)
    with True show ?thesis by (auto simp add: SplitN2_def)
  next
    case False
    show ?thesis
    proof (cases "?c \<in> set groupVersion")
      case noSlash: False
      with assms \<open>\<not> (groupVersion = [] \<or> groupVersion = ''/'')\<close>
      have "version = groupVersion"
        by (simp add: ParseGroupVersion_def splitOn_no_sep)
      with noSlash show ?thesis by (simp add: SplitN2_def)
    next
      case slash: True
      let ?g = "takeWhile (\<lambda>x. x \<noteq> ?c) groupVersion"
      let ?rest = "tl (dropWhile (\<lambda>x. x \<noteq> ?c) groupVersion)"
      from assms False splitOn_sep[OF slash]
      have p: "(case ?g # splitOn ?c ?rest of
                  [v] \<Rightarrow> Inr ([], v)
                | [g, v] \<Rightarrow> Inr (g, v)
                | _ \<Rightarrow> Inl (ErrorString (''unexpected GroupVersion string: '' @ groupVersion)))
               = Inr ([], version)"
        by (simp add: ParseGroupVersion_def)
      obtain y ys where sr: "splitOn ?c ?rest = y # ys"
        using splitOn_nonempty[of ?c ?rest] by (cases "splitOn ?c ?rest") auto
      with p have "ys = []" "?g = []" "y = version"
        by (auto split: list.splits)
      with sr have "splitOn ?c ?rest = [version]" by simp
      from splitOn_single[OF this] \<open>?g = []\<close> slash show ?thesis
        by (simp add: SplitN2_def)
    qed
  qed
  from both show "(if length (SplitN2 ?c groupVersion) = 1 then []
          else SplitN2 ?c groupVersion ! 0) = []" by blast
  from both show "(if length (SplitN2 ?c groupVersion) = 1 then SplitN2 ?c groupVersion ! 0
          else SplitN2 ?c groupVersion ! 1) = version" by blast
qed

lemma ownersLoop_append:
  "ownersLoop rfg bp c (xs @ ys) deps n =
     bindR (ownersLoop rfg bp c xs deps n) (\<lambda>(d, m). ownersLoop rfg bp c ys d m)"
proof (induction xs arbitrary: deps n)
  case Nil
  show ?case by (simp add: bindR_def)
next
  case (Cons x xs)
  show ?case
    by (simp add: Cons.IH bindR_def split: option.splits result.splits)
qed

lemma malformed_ownerRestoreObj:
  assumes "assertString (mapIndex ownerRefData ''apiVersion'') = None
           \<or> (\<exists>groupVersion gv.
                 assertString (mapIndex ownerRefData ''apiVersion'') = Some groupVersion
                 \<and> ParseGroupVersion groupVersion = Inr gv
                 \<and> (assertString (mapIndex ownerRefData ''kind'') = None
                      \<or> (\<exists>kind found.
                            assertString (mapIndex ownerRefData ''kind'') = Some kind
                            \<and> rfg \<lparr>kindGroup = fst gv, kindVersion = snd gv, Kind = kind\<rparr>
                                = Inr found
                            \<and> assertString (mapIndex ownerRefData ''name'') = None)))"
  shows "ownerRestoreObj rfg backupPath currRestoreObj ownerRefData = Panic TypeAssertionFailed"
  using assms
  by (auto simp add: ownerRestoreObj_def Let_def split: prod.splits)

lemma restoreArchive_graph_panic:
  assumes "restoreCRDs sys api backupPath transformers Map.empty c = (Ok (), createdMap, c1, ins)"
      and "findResourcesWithStatusSubresource sys backupPath = Ok sset"
      and "generateDependencyGraph sys (ResourceForGVK api c1) backupPath transformers emptyGraph
             = Panic p"
  shows "returned (restoreArchive sys api ops c spec backupPath transformers) = Panic p"
    and "fsEvents (restoreArchive sys api ops c spec backupPath transformers) = []"
  using assms by (simp_all add: restoreArchive_def)

lemma written_append:
  "objectWritten (xs @ ys) = (objectWritten xs \<or> objectWritten ys)"
  "statusWritten (xs @ ys) = (statusWritten xs \<or> statusWritten ys)"
  by (simp_all add: objectWritten_def statusWritten_def list_ex_iff) blast+

lemma readsOnly_getOwnerNewUID: "readsOnly (snd (getOwnerNewUID api c owner))"
  by (simp add: getOwnerNewUID_def readsOnly_def objectWritten_def statusWritten_def
           split: sum.splits)

lemma readsOnly_append: "readsOnly xs \<Longrightarrow> readsOnly ys \<Longrightarrow> readsOnly (xs @ ys)"
  by (simp add: readsOnly_def written_append)

lemma readsOnly_consResult: "readsOnly cs \<Longrightarrow> readsOnly (snd r) \<Longrightarrow> readsOnly (snd (consResult x cs r))"
  by (cases "fst r") (simp_all add: consResult_def readsOnly_append)

lemma readsOnly_Nil: "readsOnly []"
  by (simp add: readsOnly_def objectWritten_def statusWritten_def)

lemma readsOnly_updateOwnerRefs: "readsOnly (snd (updateOwnerRefs api c namespace refs))"
proof (induction refs)
  case Nil
  show ?case by (simp add: readsOnly_Nil)
next
  case (Cons ownerRef rest)
  show ?case
  proof (cases "assertMap ownerRef")
    case None
    then show ?thesis by (simp add: readsOnly_Nil)
  next
    case (Some reference)
    let ?apiversion = "stringOrEmpty (mapIndex reference ''apiVersion'')"
    let ?kind = "stringOrEmpty (mapIndex reference ''kind'')"
    show ?thesis
    proof (cases "?apiversion = [] \<or> ?kind = []")
      case True
      with Some Cons.IH show ?thesis
        by (simp add: Let_def readsOnly_consResult readsOnly_Nil)
    next
      case False
      show ?thesis
      proof (cases "ParseGroupVersion ?apiversion")
        case (Inl err)
        with Some False show ?thesis by (simp add: Let_def readsOnly_Nil)
      next
        case (Inr ownerGV)
        let ?gvk = "\<lparr>kindGroup = fst ownerGV, kindVersion = snd ownerGV, Kind = ?kind\<rparr>"
        show ?thesis
        proof (cases "ResourceForGVK api c ?gvk")
          case (Inl err)
          with Some False \<open>ParseGroupVersion ?apiversion = Inr ownerGV\<close> show ?thesis
            by (simp add: Let_def readsOnly_Nil)
        next
          case found: (Inr res)
          obtain ownerGVR isNamespaced where res: "res = (ownerGVR, isNamespaced)"
            by (cases res)
          let ?owner = "\<lparr>Name = stringOrEmpty (mapIndex reference ''name''),
                           Namespace = (if isNamespaced then namespace else []),
                           GVR = ownerGVR, ResourceConfigPath = [], Data = None\<rparr>"
          have u: "readsOnly (snd (getOwnerNewUID api c ?owner))"
            by (rule readsOnly_getOwnerNewUID)
          show ?thesis
          proof (cases "fst (getOwnerNewUID api c ?owner)")
            case (Ok uid)
            with Some False \<open>ParseGroupVersion ?apiversion = Inr ownerGV\<close> found res u Cons.IH
            show ?thesis
              by (simp add: Let_def readsOnly_consResult)
          next
            case (Error e)
            with Some False \<open>ParseGroupVersion ?apiversion = Inr ownerGV\<close> found res u
            show ?thesis by (simp add: Let_def)
          next
            case (Panic p)
            with Some False \<open>ParseGroupVersion ?apiversion = Inr ownerGV\<close> found res u
            show ?thesis by (simp add: Let_def)
          qed
        qed
      qed
    qed
  qed
qed

lemma statusRule_updateStatusIf:
  "updateStatusIf api c gvr' namespace name obj hs = (r, cs, c')
   \<Longrightarrow> \<not> objectWritten cs \<and> (statusWritten cs \<longleftrightarrow> hs)"
  by (auto simp add: updateStatusIf_def objectWritten_def statusWritten_def
           split: if_splits prod.splits sum.splits)

lemma statusRule_afterWrite:
  assumes "objectWritten pre" and "\<not> statusWritten pre"
  shows "statusRule hs (fst (snd (afterCalls pre (updateStatusIf api c gvr' namespace name obj hs))))"
proof -
  obtain r cs c' where u: "updateStatusIf api c gvr' namespace name obj hs = (r, cs, c')"
    by (metis prod_cases3)
  from statusRule_updateStatusIf[OF u] assms u show ?thesis
    by (simp add: afterCalls_def statusRule_def written_append)
qed

lemma statusRule_createOrUpdate:
  "statusRule hs (fst (snd (createOrUpdate api c gvr' namespace name obj objMetadata hs)))"
proof (cases "drGet api c gvr' namespace name")
  case (Inl err)
  show ?thesis
  proof (cases "IsNotFound err")
    case False
    with Inl show ?thesis
      by (simp add: createOrUpdate_def statusRule_def objectWritten_def statusWritten_def)
  next
    case True
    obtain cr c1 where cr: "drCreate api c gvr' namespace obj = (cr, c1)" by (metis surj_pair)
    show ?thesis
    proof (cases cr)
      case (Inl err')
      with \<open>drGet api c gvr' namespace name = Inl err\<close> True cr show ?thesis
        by (simp add: createOrUpdate_def statusRule_def objectWritten_def statusWritten_def)
    next
      case (Inr createdObj)
      have "statusRule hs (fst (snd (afterCalls
               [Call GET gvr' namespace name False, Call CREATE gvr' namespace name True]
               (updateStatusIf api c1 gvr' namespace name createdObj hs))))"
        by (rule statusRule_afterWrite) (simp_all add: objectWritten_def statusWritten_def)
      with \<open>drGet api c gvr' namespace name = Inl err\<close> True cr Inr show ?thesis
        by (simp add: createOrUpdate_def)
    qed
  qed
next
  case (Inr res)
  show ?thesis
  proof (cases "assertMap (mapIndex res metadataMapKey)")
    case None
    with Inr show ?thesis
      by (simp add: createOrUpdate_def statusRule_def objectWritten_def statusWritten_def)
  next
    case (Some resMetadata)
    show ?thesis
    proof (cases "assertString (mapIndex resMetadata ''resourceVersion'')")
      case None
      with Inr Some show ?thesis
        by (simp add: createOrUpdate_def statusRule_def objectWritten_def statusWritten_def)
    next
      case rv: (Some resourceVersion)
      let ?obj' = "AList.update metadataMapKey
                     (JObj (AList.update ''resourceVersion'' (JStr resourceVersion) objMetadata)) obj"
      obtain ur c1 where ur: "drUpdate api c gvr' namespace ?obj' = (ur, c1)" by (metis surj_pair)
      show ?thesis
      proof (cases ur)
        case (Inl err)
        with \<open>drGet api c gvr' namespace name = Inr res\<close> Some rv ur show ?thesis
          by (simp add: createOrUpdate_def statusRule_def objectWritten_def statusWritten_def)
      next
        case updated: (Inr x)
        have "statusRule hs (fst (snd (afterCalls
               [Call GET gvr' namespace name True, Call UPDATE gvr' namespace name True]
               (updateStatusIf api c1 gvr' namespace name ?obj' hs))))"
          by (rule statusRule_afterWrite) (simp_all add: objectWritten_def statusWritten_def)
        with \<open>drGet api c gvr' namespace name = Inr res\<close> Some rv ur updated show ?thesis
          by (simp add: createOrUpdate_def)
      qed
    qed
  qed
qed

lemma statusRule_after_reads:
  "readsOnly pre \<Longrightarrow> statusRule hs (fst (snd r)) \<Longrightarrow> statusRule hs (fst (snd (afterCalls pre r)))"
  by (simp add: afterCalls_def statusRule_def readsOnly_def written_append)

lemma statusRule_reads: "readsOnly cs \<Longrightarrow> statusRule hs cs"
  by (simp add: statusRule_def readsOnly_def)

lemma statusRule_restoreResource:
  "statusRule hs (fst (snd (restoreResource api c currRestoreObj gvr' hs)))"
proof (cases "Data currRestoreObj")
  case None
  then show ?thesis by (simp add: restoreResource_def statusRule_reads readsOnly_Nil)
next
  case (Some fileMap)
  show ?thesis
  proof (cases "assertMap (mapIndex fileMap metadataMapKey)")
    case None
    with Some show ?thesis by (simp add: restoreResource_def statusRule_reads readsOnly_Nil)
  next
    case md: (Some fileMapMetadata)
    show ?thesis
    proof (cases "assertString (mapIndex fileMapMetadata ''name'')")
      case None
      with Some md show ?thesis by (simp add: restoreResource_def statusRule_reads readsOnly_Nil)
    next
      case nm: (Some name)
      let ?ns = "stringOrEmpty (mapIndex fileMapMetadata ''namespace'')"
      show ?thesis
      proof (cases "assertSlice (mapIndex fileMapMetadata ownerRefsMapKey)")
        case None
        with Some md nm show ?thesis
          by (simp add: restoreResource_def Let_def statusRule_createOrUpdate)
      next
        case refs: (Some ownerReferences)
        have ro: "readsOnly (snd (updateOwnerRefs api c ?ns ownerReferences))"
          by (rule readsOnly_updateOwnerRefs)
        show ?thesis
        proof (cases "fst (updateOwnerRefs api c ?ns ownerReferences)")
          case (Ok refs')
          with Some md nm refs ro show ?thesis
            by (simp add: restoreResource_def Let_def statusRule_after_reads
                          statusRule_createOrUpdate)
        next
          case (Error e)
          with Some md nm refs ro show ?thesis
            by (simp add: restoreResource_def Let_def statusRule_reads)
        next
          case (Panic p)
          with Some md nm refs ro show ?thesis
            by (simp add: restoreResource_def Let_def statusRule_reads)
        qed
      qed
    qed
  qed
qed

lemma replayStep_rule:
  assumes "attemptsFollowRule sset (attempts st)"
      and "replayStep api sset st = Continue st' \<or> replayStep api sset st = Stop st' p"
  shows "attemptsFollowRule sset (attempts st')"
proof (cases "toRestore (graphOf st)")
  case Nil
  with assms(2) show ?thesis by (simp add: replayStep_def)
next
  case (Cons currObj rest)
  show ?thesis
  proof (cases "lookupBool (created st) (ResourceConfigPath currObj)")
    case True
    with assms Cons show ?thesis by (auto simp add: replayStep_def)
  next
    case False
    let ?hs = "lookupBool sset (gvrString (GVR currObj))"
    obtain r cs c' where rr: "restoreResource api (cluster st) currObj (GVR currObj) ?hs = (r, cs, c')"
      by (metis prod_cases3)
    have "statusRule ?hs (fst (snd (restoreResource api (cluster st) currObj (GVR currObj) ?hs)))"
      by (rule statusRule_restoreResource)
    with rr have new: "statusRule ?hs cs" by simp
    have "attempts st' = attempts st @ [\<lparr>applied = currObj, calls = cs, outcome = r\<rparr>]"
      using assms(2) Cons False rr
      by (cases r) (auto simp add: replayStep_def split: prod.splits)
    with assms(1) new show ?thesis by (simp add: attemptsFollowRule_def)
  qed
qed

lemma createLoop_rule:
  "attemptsFollowRule sset (attempts st) \<Longrightarrow> createLoop api sset st = (st', po)
   \<Longrightarrow> attemptsFollowRule sset (attempts st')"
proof (induction api sset st rule: createLoop.induct)
  case (1 api sset st)
  show ?case
  proof (cases "replayStep api sset st")
    case Done
    with "1.prems"(2) have "st' = st" by (subst (asm) createLoop.simps) simp
    with "1.prems"(1) show ?thesis by simp
  next
    case (Continue st1)
    with "1.prems"(2) have l: "createLoop api sset st1 = (st', po)"
      by (subst (asm) createLoop.simps) simp
    have "attemptsFollowRule sset (attempts st1)"
      using "1.prems"(1) Continue by (rule replayStep_rule[where p = undefined, OF _ disjI1])
    from "1.IH"[OF Continue this l] show ?thesis .
  next
    case (Stop st1 p)
    with "1.prems"(2) have "st' = st1" by (subst (asm) createLoop.simps) simp
    moreover have "attemptsFollowRule sset (attempts st1)"
      using "1.prems"(1) Stop by (rule replayStep_rule[OF _ disjI2])
    ultimately show ?thesis by simp
  qed
qed

lemma createFromDependencyGraph_rule:
  "createFromDependencyGraph api c deps createdMap num queue sset = (r, st)
   \<Longrightarrow> attemptsFollowRule sset (attempts st)"
proof -
  assume run: "createFromDependencyGraph api c deps createdMap num queue sset = (r, st)"
  let ?st0 = "\<lparr>graphOf = \<lparr>ownerToDependentsList = deps, toRestore = queue,
                            numOwnerReferences = num\<rparr>,
               created = createdMap, errList = [], countRestored = 0,
               cluster = c, attempts = []\<rparr>"
  obtain po where l: "createLoop api sset ?st0 = (st, po)"
    using run by (auto simp add: createFromDependencyGraph_def split: prod.splits option.splits)
  have "attemptsFollowRule sset (attempts ?st0)" by (simp add: attemptsFollowRule_def)
  from createLoop_rule[OF this l] show ?thesis .
qed

lemma restoreArchive_rule:
  assumes "findResourcesWithStatusSubresource sys backupPath = Ok sset"
  shows "attemptsFollowRule sset (replays (restoreArchive sys api ops c spec backupPath transformers))"
proof -
  have none: "attemptsFollowRule sset []" by (simp add: attemptsFollowRule_def)
  obtain r1 createdMap c1 ins where
    crd: "restoreCRDs sys api backupPath transformers Map.empty c = (r1, createdMap, c1, ins)"
    by (metis prod_cases4)
  show ?thesis
  proof (cases r1)
    case (Ok u)
    show ?thesis
    proof (cases "generateDependencyGraph sys (ResourceForGVK api c1) backupPath transformers
                    emptyGraph")
      case g: (Ok g)
      obtain r2 st where run: "createFromDependencyGraph api c1 (ownerToDependentsList g)
          createdMap (numOwnerReferences g) (toRestore g) sset = (r2, st)"
        by (metis surj_pair)
      have "replays (restoreArchive sys api ops c spec backupPath transformers) = attempts st"
        using crd Ok assms(1) g run
        by (cases r2) (simp_all add: restoreArchive_def split: prod.splits option.splits)
      with createFromDependencyGraph_rule[OF run] show ?thesis by simp
    next
      case (Error e)
      with crd Ok assms none show ?thesis by (simp add: restoreArchive_def)
    next
      case (Panic p)
      with crd Ok assms none show ?thesis by (simp add: restoreArchive_def)
    qed
  next
    case (Error e)
    with crd none show ?thesis by (simp add: restoreArchive_def)
  next
    case (Panic p)
    with crd none show ?thesis by (simp add: restoreArchive_def)
  qed
qed

lemma crdDirsLoop_absent:
  "\<forall>resourceGVK \<in> set dirs. \<exists>err. Stat sys (Join [backupPath, resourceGVK]) = Some err
                                      \<and> IsNotExist err
   \<Longrightarrow> crdDirsLoop sys api backupPath transformers dirs createdMap c tried
         = (Ok (), createdMap, c, tried)"
  by (induction dirs) (auto simp add: Let_def)

lemma errorsOf_append: "errorsOf (xs @ ys) = errorsOf xs @ errorsOf ys"
  by (induction xs) (auto split: result.splits)

lemma replayStep_errors:
  assumes "errList st = errorsOf (attempts st)"
      and "replayStep api sset st = Continue st' \<or> replayStep api sset st = Stop st' p"
  shows "errList st' = errorsOf (attempts st')"
proof (cases "toRestore (graphOf st)")
  case Nil
  with assms(2) show ?thesis by (simp add: replayStep_def)
next
  case (Cons currObj rest)
  show ?thesis
  proof (cases "lookupBool (created st) (ResourceConfigPath currObj)")
    case True
    with assms Cons show ?thesis by (auto simp add: replayStep_def)
  next
    case False
    obtain r cs c' where rr: "restoreResource api (cluster st) currObj (GVR currObj)
                    (lookupBool sset (gvrString (GVR currObj))) = (r, cs, c')"
      by (metis prod_cases3)
    show ?thesis
      using assms Cons False rr
      by (cases r) (auto simp add: replayStep_def errorsOf_append split: prod.splits)
  qed
qed

lemma replayStep_continue_no_panic:
  assumes "\<not> list_ex panicked (attempts st)"
      and "replayStep api sset st = Continue st'"
  shows "\<not> list_ex panicked (attempts st')"
proof (cases "toRestore (graphOf st)")
  case Nil
  with assms(2) show ?thesis by (simp add: replayStep_def)
next
  case (Cons currObj rest)
  show ?thesis
  proof (cases "lookupBool (created st) (ResourceConfigPath currObj)")
    case True
    with assms Cons show ?thesis by (auto simp add: replayStep_def)
  next
    case False
    obtain r cs c' where rr: "restoreResource api (cluster st) currObj (GVR currObj)
                    (lookupBool sset (gvrString (GVR currObj))) = (r, cs, c')"
      by (metis prod_cases3)
    show ?thesis
      using assms Cons False rr
      by (cases r) (auto simp add: replayStep_def list_ex_iff panicked_def split: prod.splits)
  qed
qed

lemma replayStep_stop_panicked:
  assumes "replayStep api sset st = Stop st' p"
  shows "list_ex panicked (attempts st')"
proof (cases "toRestore (graphOf st)")
  case Nil
  with assms show ?thesis by (simp add: replayStep_def)
next
  case (Cons currObj rest)
  show ?thesis
  proof (cases "lookupBool (created st) (ResourceConfigPath currObj)")
    case True
    with assms Cons show ?thesis by (auto simp add: replayStep_def)
  next
    case False
    obtain r cs c' where rr: "restoreResource api (cluster st) currObj (GVR currObj)
                    (lookupBool sset (gvrString (GVR currObj))) = (r, cs, c')"
      by (metis prod_cases3)
    show ?thesis
      using assms Cons False rr
      by (cases r) (auto simp add: replayStep_def list_ex_iff panicked_def split: prod.splits)
  qed
qed

lemma replayStep_done_queue: "replayStep api sset st = Done \<Longrightarrow> toRestore (graphOf st) = []"
  by (cases "toRestore (graphOf st)")
     (auto simp add: replayStep_def Let_def split: if_splits prod.splits result.splits)

lemma createLoop_errors:
  "errList st = errorsOf (attempts st) \<Longrightarrow> createLoop api sset st = (st', po)
   \<Longrightarrow> errList st' = errorsOf (attempts st')"
proof (induction api sset st rule: createLoop.induct)
  case (1 api sset st)
  show ?case
  proof (cases "replayStep api sset st")
    case Done
    with "1.prems"(2) have "st' = st" by (subst (asm) createLoop.simps) simp
    with "1.prems"(1) show ?thesis by simp
  next
    case (Continue st1)
    with "1.prems"(2) have l: "createLoop api sset st1 = (st', po)"
      by (subst (asm) createLoop.simps) simp
    have "errList st1 = errorsOf (attempts st1)"
      using "1.prems"(1) Continue by (rule replayStep_errors[where p = undefined, OF _ disjI1])
    from "1.IH"[OF Continue this l] show ?thesis .
  next
    case (Stop st1 p)
    with "1.prems"(2) have "st' = st1" by (subst (asm) createLoop.simps) simp
    moreover have "errList st1 = errorsOf (attempts st1)"
      using "1.prems"(1) Stop by (rule replayStep_errors[OF _ disjI2])
    ultimately show ?thesis by simp
  qed
qed

lemma createLoop_drains:
  "\<not> list_ex panicked (attempts st) \<Longrightarrow> createLoop api sset st = (st', po)
   \<Longrightarrow> (if list_ex panicked (attempts st') then po \<noteq> None
        else po = None \<and> toRestore (graphOf st') = [])"
proof (induction api sset st rule: createLoop.induct)
  case (1 api sset st)
  show ?case
  proof (cases "replayStep api sset st")
    case Done
    with "1.prems"(2) have "st' = st" "po = None" by (subst (asm) createLoop.simps, simp)+
    with "1.prems"(1) replayStep_done_queue[OF Done] show ?thesis by simp
  next
    case (Continue st1)
    with "1.prems"(2) have l: "createLoop api sset st1 = (st', po)"
      by (subst (asm) createLoop.simps) simp
    have "\<not> list_ex panicked (attempts st1)"
      using "1.prems"(1) Continue by (rule replayStep_continue_no_panic)
    from "1.IH"[OF Continue this l] show ?thesis .
  next
    case (Stop st1 p)
    with "1.prems"(2) have "st' = st1" "po = Some p" by (subst (asm) createLoop.simps, simp)+
    with replayStep_stop_panicked[OF Stop] show ?thesis by simp
  qed
qed

lemma splitOn_two:
  "c \<notin> set a \<Longrightarrow> c \<notin> set b \<Longrightarrow> splitOn c (a @ c # b) = [a, b]"
  by (induction a) (auto simp add: splitOn_no_sep)

lemma takeWhile_sep: "c \<notin> set a \<Longrightarrow> takeWhile (\<lambda>x. x \<noteq> c) (a @ c # b) = a"
  by (induction a) auto

lemma dropWhile_sep: "c \<notin> set a \<Longrightarrow> dropWhile (\<lambda>x. x \<noteq> c) (a @ c # b) = c # b"
  by (induction a) auto

lemma SplitN2_first:
  "c \<notin> set a \<Longrightarrow> SplitN2 c (a @ c # b) = [a, b]"
  by (simp add: SplitN2_def takeWhile_sep dropWhile_sep)

lemma TrimSuffix_no_dot: "CHR ''.'' \<notin> set s \<Longrightarrow> TrimSuffix s ''.'' = s"
proof (cases "s = []")
  case True
  then show ?thesis by (simp add: TrimSuffix_def HasSuffix_def)
next
  case False
  assume n: "CHR ''.'' \<notin> set s"
  from False have "last s \<in> set s" by simp
  with n have "last s \<noteq> CHR ''.''" by auto
  moreover from False have "drop (length s - 1) s = [last s]"
    by (metis append_butlast_last_id append_eq_conv_conj length_butlast)
  ultimately show ?thesis by (simp add: TrimSuffix_def HasSuffix_def)
qed

lemma ParseGroupResource_joined:
  "CHR ''.'' \<notin> set resource \<Longrightarrow> ParseGroupResource (resource @ ''.'' @ apiGroup) = (apiGroup, resource)"
  by (simp add: ParseGroupResource_def takeWhile_sep dropWhile_sep)

lemma requestsOf_append: "requestsOf (xs @ ys) = requestsOf xs @ requestsOf ys"
  by (induction xs rule: requestsOf.induct) simp_all

lemma requested_written:
  "objectRequested (requestsOf cs) = objectWritten cs"
  "statusRequested (requestsOf cs) = statusWritten cs"
  by (induction cs rule: requestsOf.induct)
     (auto simp add: objectRequested_def statusRequested_def objectWritten_def statusWritten_def)

lemma journal_updateStatusIf:
  "updateStatusIf (recording api) s g ns n obj hs = (r, cs, s')
   \<Longrightarrow> snd s' = snd s @ requestsOf cs"
  by (auto simp add: updateStatusIf_def recording_def journalled_def isOk_def
           split: if_splits prod.splits sum.splits)

lemma journal_afterWrite:
  assumes "j1 = snd s @ requestsOf pre" and "snd s1 = j1"
  shows "snd (snd (snd (afterCalls pre (updateStatusIf (recording api) s1 g ns n obj hs))))
         = snd s @ requestsOf (fst (snd (afterCalls pre (updateStatusIf (recording api) s1 g ns n obj hs))))"
proof -
  obtain r cs s' where u: "updateStatusIf (recording api) s1 g ns n obj hs = (r, cs, s')"
    by (metis prod_cases3)
  from journal_updateStatusIf[OF u] assms u show ?thesis
    by (simp add: afterCalls_def requestsOf_append)
qed

lemma journal_createOrUpdate:
  "snd (snd (snd (createOrUpdate (recording api) s g ns n obj md hs)))
   = snd s @ requestsOf (fst (snd (createOrUpdate (recording api) s g ns n obj md hs)))"
proof (cases "drGet api (fst s) g ns n")
  case (Inl err)
  then have get: "drGet (recording api) s g ns n = Inl err" by (simp add: recording_def)
  show ?thesis
  proof (cases "IsNotFound err")
    case False
    with get show ?thesis by (simp add: createOrUpdate_def)
  next
    case True
    obtain cr c1 where cr: "drCreate api (fst s) g ns obj = (cr, c1)" by (metis surj_pair)
    then have rc: "drCreate (recording api) s g ns obj
                   = (cr, (c1, snd s @ [Request CREATE g ns (isOk cr)]))"
      by (simp add: recording_def journalled_def)
    show ?thesis
    proof (cases cr)
      case (Inl err')
      with get True rc show ?thesis by (simp add: createOrUpdate_def isOk_def)
    next
      case (Inr createdObj)
      have "snd (snd (snd (afterCalls [Call GET g ns n False, Call CREATE g ns n True]
               (updateStatusIf (recording api) (c1, snd s @ [Request CREATE g ns True]) g ns n createdObj hs))))
            = snd s @ requestsOf (fst (snd (afterCalls [Call GET g ns n False, Call CREATE g ns n True]
               (updateStatusIf (recording api) (c1, snd s @ [Request CREATE g ns True]) g ns n createdObj hs))))"
        by (rule journal_afterWrite[where ?j1.0 = "snd s @ [Request CREATE g ns True]"]) simp_all
      with get True rc Inr show ?thesis by (simp add: createOrUpdate_def isOk_def)
    qed
  qed
next
  case (Inr res)
  then have get: "drGet (recording api) s g ns n = Inr res" by (simp add: recording_def)
  show ?thesis
  proof (cases "assertMap (mapIndex res metadataMapKey)")
    case None
    with get show ?thesis by (simp add: createOrUpdate_def)
  next
    case (Some resMetadata)
    show ?thesis
    proof (cases "assertString (mapIndex resMetadata ''resourceVersion'')")
      case None
      with get Some show ?thesis by (simp add: createOrUpdate_def)
    next
      case rv: (Some resourceVersion)
      let ?obj' = "AList.update metadataMapKey
                     (JObj (AList.update ''resourceVersion'' (JStr resourceVersion) md)) obj"
      obtain ur c1 where ur: "drUpdate api (fst s) g ns ?obj' = (ur, c1)" by (metis surj_pair)
      then have ru: "drUpdate (recording api) s g ns ?obj'
                     = (ur, (c1, snd s @ [Request UPDATE g ns (isOk ur)]))"
        by (simp add: recording_def journalled_def)
      show ?thesis
      proof (cases ur)
        case (Inl err)
        with get Some rv ru show ?thesis by (simp add: createOrUpdate_def isOk_def)
      next
        case updated: (Inr x)
        have "snd (snd (snd (afterCalls [Call GET g ns n True, Call UPDATE g ns n True]
               (updateStatusIf (recording api) (c1, snd s @ [Request UPDATE g ns True]) g ns n ?obj' hs))))
            = snd s @ requestsOf (fst (snd (afterCalls [Call GET g ns n True, Call UPDATE g ns n True]
               (updateStatusIf (recording api) (c1, snd s @ [Request UPDATE g ns True]) g ns n ?obj' hs))))"
          by (rule journal_afterWrite[where ?j1.0 = "snd s @ [Request UPDATE g ns True]"]) simp_all
        with get Some rv ru updated show ?thesis by (simp add: createOrUpdate_def isOk_def)
      qed
    qed
  qed
qed

lemma gets_getOwnerNewUID: "requestsOf (snd (getOwnerNewUID api c owner)) = []"
  by (simp add: getOwnerNewUID_def split: sum.splits)

lemma gets_consResult:
  "requestsOf cs = [] \<Longrightarrow> requestsOf (snd r) = [] \<Longrightarrow> requestsOf (snd (consResult x cs r)) = []"
  by (cases "fst r") (simp_all add: consResult_def requestsOf_append)

lemma gets_updateOwnerRefs: "requestsOf (snd (updateOwnerRefs api c namespace refs)) = []"
proof (induction refs)
  case Nil
  show ?case by simp
next
  case (Cons ownerRef rest)
  show ?case
  proof (cases "assertMap ownerRef")
    case None
    then show ?thesis by simp
  next
    case (Some reference)
    let ?apiversion = "stringOrEmpty (mapIndex reference ''apiVersion'')"
    let ?kind = "stringOrEmpty (mapIndex reference ''kind'')"
    show ?thesis
    proof (cases "?apiversion = [] \<or> ?kind = []")
      case True
      with Some Cons.IH show ?thesis
        by (simp add: Let_def gets_consResult)
    next
      case False
      show ?thesis
      proof (cases "ParseGroupVersion ?apiversion")
        case (Inl err)
        with Some False show ?thesis by (simp add: Let_def)
      next
        case (Inr ownerGV)
        let ?gvk = "\<lparr>kindGroup = fst ownerGV, kindVersion = snd ownerGV, Kind = ?kind\<rparr>"
        show ?thesis
        proof (cases "ResourceForGVK api c ?gvk")
          case (Inl err)
          with Some False \<open>ParseGroupVersion ?apiversion = Inr ownerGV\<close> show ?thesis
            by (simp add: Let_def)
        next
          case found: (Inr res)
          obtain ownerGVR isNamespaced where res: "res = (ownerGVR, isNamespaced)"
            by (cases res)
          let ?owner = "\<lparr>Name = stringOrEmpty (mapIndex reference ''name''),
                           Namespace = (if isNamespaced then namespace else []),
                           GVR = ownerGVR, ResourceConfigPath = [], Data = None\<rparr>"
          have u: "requestsOf (snd (getOwnerNewUID api c ?owner)) = []"
            by (rule gets_getOwnerNewUID)
          show ?thesis
          proof (cases "fst (getOwnerNewUID api c ?owner)")
            case (Ok uid)
            with Some False \<open>ParseGroupVersion ?apiversion = Inr ownerGV\<close> found res u Cons.IH
            show ?thesis
              by (simp add: Let_def gets_consResult)
          next
            case (Error e)
            with Some False \<open>ParseGroupVersion ?apiversion = Inr ownerGV\<close> found res u
            show ?thesis by (simp add: Let_def)
          next
            case (Panic p)
            with Some False \<open>ParseGroupVersion ?apiversion = Inr ownerGV\<close> found res u
            show ?thesis by (simp add: Let_def)
          qed
        qed
      qed
    qed
  qed
qed

lemma journal_after_gets:
  assumes "requestsOf pre = []"
      and "snd (snd (snd r)) = j @ requestsOf (fst (snd r))"
  shows "snd (snd (snd (afterCalls pre r))) = j @ requestsOf (fst (snd (afterCalls pre r)))"
  using assms by (simp add: afterCalls_def requestsOf_append)

lemma journal_restoreResource:
  "snd (snd (snd (restoreResource (recording api) s currRestoreObj g hs)))
   = snd s @ requestsOf (fst (snd (restoreResource (recording api) s currRestoreObj g hs)))"
proof (cases "Data currRestoreObj")
  case None
  then show ?thesis by (simp add: restoreResource_def)
next
  case (Some fileMap)
  show ?thesis
  proof (cases "assertMap (mapIndex fileMap metadataMapKey)")
    case None
    with Some show ?thesis by (simp add: restoreResource_def)
  next
    case md: (Some fileMapMetadata)
    show ?thesis
    proof (cases "assertString (mapIndex fileMapMetadata ''name'')")
      case None
      with Some md show ?thesis by (simp add: restoreResource_def)
    next
      case nm: (Some name)
      let ?ns = "stringOrEmpty (mapIndex fileMapMetadata ''namespace'')"
      show ?thesis
      proof (cases "assertSlice (mapIndex fileMapMetadata ownerRefsMapKey)")
        case None
        with Some md nm show ?thesis
          by (simp add: restoreResource_def Let_def journal_createOrUpdate)
      next
        case refs: (Some ownerReferences)
        have ro: "requestsOf (snd (updateOwnerRefs (recording api) s ?ns ownerReferences)) = []"
          by (rule gets_updateOwnerRefs)
        show ?thesis
        proof (cases "fst (updateOwnerRefs (recording api) s ?ns ownerReferences)")
          case (Ok refs')
          with Some md nm refs ro show ?thesis
            by (simp add: restoreResource_def Let_def journal_after_gets journal_createOrUpdate)
        next
          case (Error e)
          with Some md nm refs ro show ?thesis
            by (simp add: restoreResource_def Let_def)
        next
          case (Panic p)
          with Some md nm refs ro show ?thesis
            by (simp add: restoreResource_def Let_def)
        qed
      qed
    qed
  qed
qed

lemma journal_replayStep:
  assumes "snd (cluster st) = j @ concat (map requested (attempts st))"
      and "replayStep (recording api) sset st = Continue st'
           \<or> replayStep (recording api) sset st = Stop st' p"
  shows "snd (cluster st') = j @ concat (map requested (attempts st'))"
proof (cases "toRestore (graphOf st)")
  case Nil
  with assms(2) show ?thesis by (simp add: replayStep_def)
next
  case (Cons currObj rest)
  show ?thesis
  proof (cases "lookupBool (created st) (ResourceConfigPath currObj)")
    case True
    with assms Cons show ?thesis by (auto simp add: replayStep_def)
  next
    case False
    let ?hs = "lookupBool sset (gvrString (GVR currObj))"
    obtain r cs s' where rr:
      "restoreResource (recording api) (cluster st) currObj (GVR currObj) ?hs = (r, cs, s')"
      by (metis prod_cases3)
    have "snd (snd (snd (restoreResource (recording api) (cluster st) currObj (GVR currObj) ?hs)))
          = snd (cluster st)
            @ requestsOf (fst (snd (restoreResource (recording api) (cluster st) currObj
                                      (GVR currObj) ?hs)))"
      by (rule journal_restoreResource)
    with rr have new: "snd s' = snd (cluster st) @ requestsOf cs" by simp
    have "attempts st' = attempts st @ [\<lparr>applied = currObj, calls = cs, outcome = r\<rparr>]
          \<and> cluster st' = s'"
      using assms(2) Cons False rr
      by (cases r) (auto simp add: replayStep_def split: prod.splits)
    with assms(1) new show ?thesis by (simp add: requested_def)
  qed
qed

lemma journal_createLoop:
  "snd (cluster st) = j @ concat (map requested (attempts st))
   \<Longrightarrow> createLoop (recording api) sset st = (st', po)
   \<Longrightarrow> snd (cluster st') = j @ concat (map requested (attempts st'))"
proof (induction "recording api" sset st rule: createLoop.induct)
  case (1 sset st)
  show ?case
  proof (cases "replayStep (recording api) sset st")
    case Done
    with "1.prems"(2) have "st' = st" by (subst (asm) createLoop.simps) simp
    with "1.prems"(1) show ?thesis by simp
  next
    case (Continue st1)
    with "1.prems"(2) have l: "createLoop (recording api) sset st1 = (st', po)"
      by (subst (asm) createLoop.simps) simp
    have "snd (cluster st1) = j @ concat (map requested (attempts st1))"
      using "1.prems"(1) Continue by (rule journal_replayStep[where p = undefined, OF _ disjI1])
    from "1.hyps"[OF Continue this l] show ?thesis .
  next
    case (Stop st1 p)
    with "1.prems"(2) have "st' = st1" by (subst (asm) createLoop.simps) simp
    moreover have "snd (cluster st1) = j @ concat (map requested (attempts st1))"
      using "1.prems"(1) Stop by (rule journal_replayStep[OF _ disjI2])
    ultimately show ?thesis by simp
  qed
qed

lemma journal_createFromDependencyGraph:
  "createFromDependencyGraph (recording api) s deps createdMap num queue sset = (r, st)
   \<Longrightarrow> snd (cluster st) = snd s @ concat (map requested (attempts st))"
proof -
  assume run: "createFromDependencyGraph (recording api) s deps createdMap num queue sset = (r, st)"
  let ?st0 = "\<lparr>graphOf = \<lparr>ownerToDependentsList = deps, toRestore = queue,
                            numOwnerReferences = num\<rparr>,
               created = createdMap, errList = [], countRestored = 0,
               cluster = s, attempts = []\<rparr>"
  obtain po where l: "createLoop (recording api) sset ?st0 = (st, po)"
    using run by (auto simp add: createFromDependencyGraph_def split: prod.splits option.splits)
  have "snd (cluster ?st0) = snd s @ concat (map requested (attempts ?st0))" by simp
  from journal_createLoop[OF this l] show ?thesis .
qed

lemma requested_snoc:
  "concat (map requested (tried @ [\<lparr>applied = x, calls = cs, outcome = r\<rparr>]))
   = concat (map requested tried) @ requestsOf cs"
  by (simp add: requested_def)

lemma journal_crdFilesLoop:
  "crdFilesLoop sys (recording api) dir g tr files createdMap s tried = (r, createdMap', s', tried')
   \<Longrightarrow> snd s = j @ concat (map requested tried)
   \<Longrightarrow> snd s' = j @ concat (map requested tried')"
proof (induction files arbitrary: createdMap s tried)
  case Nil
  then show ?case by simp
next
  case (Cons resFile rest)
  let ?path = "Join [dir, fst resFile]"
  show ?case
  proof (cases "ReadFile sys ?path")
    case (Inl err)
    with Cons.prems show ?thesis by (simp add: Let_def)
  next
    case stored: (Inr stored)
    let ?name = "TrimSuffix (fst resFile) ''.json''"
    show ?thesis
    proof (cases "decryptContent sys tr ?name stored")
      case (Inl err)
      with Cons.prems stored show ?thesis by (simp add: Let_def)
    next
      case content: (Inr crdContent)
      show ?thesis
      proof (cases "UnmarshalMap sys crdContent")
        case (Inl err)
        with Cons.prems stored content show ?thesis by (simp add: Let_def)
      next
        case data: (Inr crdData)
        let ?obj = "\<lparr>Name = ?name, Namespace = [], GVR = g,
                      ResourceConfigPath = ?path, Data = Some crdData\<rparr>"
        obtain r1 cs s1 where rr: "restoreResource (recording api) s ?obj g False = (r1, cs, s1)"
          by (metis prod_cases3)
        have "snd (snd (snd (restoreResource (recording api) s ?obj g False)))
              = snd s @ requestsOf (fst (snd (restoreResource (recording api) s ?obj g False)))"
          by (rule journal_restoreResource)
        with rr Cons.prems(2)
        have "snd s1 = j @ concat (map requested tried) @ requestsOf cs" by simp
        then have new: "snd s1 = j @ concat (map requested
                                          (tried @ [\<lparr>applied = ?obj, calls = cs, outcome = r1\<rparr>]))"
          by (simp only: requested_snoc)
        show ?thesis
        proof (cases r1)
          case (Ok u)
          with Cons.prems(1) stored content data rr
          have "crdFilesLoop sys (recording api) dir g tr rest (createdMap(?path \<mapsto> True)) s1
                  (tried @ [\<lparr>applied = ?obj, calls = cs, outcome = r1\<rparr>])
                = (r, createdMap', s', tried')"
            by (simp add: Let_def)
          from Cons.IH[OF this new] show ?thesis .
        next
          case (Error e)
          with Cons.prems(1) stored content data rr new show ?thesis by (auto simp add: Let_def)
        next
          case (Panic p)
          with Cons.prems(1) stored content data rr new show ?thesis by (auto simp add: Let_def)
        qed
      qed
    qed
  qed
qed

lemma journal_crdDirsLoop:
  "crdDirsLoop sys (recording api) backupPath transformers dirs createdMap s tried
     = (r, createdMap', s', tried')
   \<Longrightarrow> snd s = j @ concat (map requested tried)
   \<Longrightarrow> snd s' = j @ concat (map requested tried')"
proof (induction dirs arbitrary: createdMap s tried)
  case Nil
  then show ?case by simp
next
  case (Cons resourceGVK rest)
  let ?dir = "Join [backupPath, resourceGVK]"
  show ?case
  proof (cases "case Stat sys ?dir of None \<Rightarrow> False | Some err \<Rightarrow> IsNotExist err")
    case True
    with Cons.prems(1)
    have "crdDirsLoop sys (recording api) backupPath transformers rest createdMap s tried
            = (r, createdMap', s', tried')"
      by (simp add: Let_def)
    from Cons.IH[OF this Cons.prems(2)] show ?thesis .
  next
    case False
    show ?thesis
    proof (cases "getGVR resourceGVK")
      case (Panic p)
      with Cons.prems False show ?thesis by (auto simp add: Let_def)
    next
      case (Error e)
      with Cons.prems False show ?thesis by (auto simp add: Let_def)
    next
      case (Ok gvr')
      show ?thesis
      proof (cases "ReadDir sys ?dir")
        case (Inl err)
        with Cons.prems False Ok show ?thesis by (auto simp add: Let_def)
      next
        case (Inr dirContents)
        obtain r1 cm1 s1 tried1 where
          files: "crdFilesLoop sys (recording api) ?dir gvr'
                    (transformers (Group gvr', Resource gvr')) dirContents createdMap s tried
                  = (r1, cm1, s1, tried1)"
          by (metis prod_cases4)
        from journal_crdFilesLoop[OF files Cons.prems(2)]
        have mid: "snd s1 = j @ concat (map requested tried1)" .
        show ?thesis
        proof (cases r1)
          case okFiles: (Ok u)
          with Cons.prems(1) False Ok Inr files
          have "crdDirsLoop sys (recording api) backupPath transformers rest cm1 s1 tried1
                  = (r, createdMap', s', tried')"
            by (simp add: Let_def)
          from Cons.IH[OF this mid] show ?thesis .
        next
          case (Error e)
          with Cons.prems(1) False Ok Inr files mid show ?thesis by (auto simp add: Let_def)
        next
          case (Panic p)
          with Cons.prems(1) False Ok Inr files mid show ?thesis by (auto simp add: Let_def)
        qed
      qed
    qed
  qed
qed

lemma journal_restoreCRDs:
  "restoreCRDs sys (recording api) backupPath transformers createdMap s = (r, createdMap', s', ins)
   \<Longrightarrow> snd s' = snd s @ concat (map requested ins)"
proof -
  assume "restoreCRDs sys (recording api) backupPath transformers createdMap s
          = (r, createdMap', s', ins)"
  then have "crdDirsLoop sys (recording api) backupPath transformers crdDirectories createdMap s []
             = (r, createdMap', s', ins)"
    by (simp add: restoreCRDs_def)
  from journal_crdDirsLoop[OF this, where j = "snd s"] show ?thesis by simp
qed

lemma journal_restoreArchive:
  assumes "restoreArchive sys (recording api) (unrecorded ops) s spec backupPath transformers = run"
  shows "snd (endCluster run) = snd s @ concat (map requested (installs run @ replays run))"
proof -
  obtain r1 createdMap s1 ins where
    crd: "restoreCRDs sys (recording api) backupPath transformers Map.empty s
          = (r1, createdMap, s1, ins)"
    by (metis prod_cases4)
  from journal_restoreCRDs[OF crd]
  have j1: "snd s1 = snd s @ concat (map requested ins)" .
  show ?thesis
  proof (cases r1)
    case (Panic p)
    with crd j1 assms show ?thesis by (auto simp add: restoreArchive_def)
  next
    case (Error e)
    with crd j1 assms show ?thesis by (auto simp add: restoreArchive_def)
  next
    case ok1: (Ok u)
    show ?thesis
    proof (cases "findResourcesWithStatusSubresource sys backupPath")
      case (Panic p)
      with crd ok1 j1 assms show ?thesis by (auto simp add: restoreArchive_def)
    next
      case (Error e)
      with crd ok1 j1 assms show ?thesis by (auto simp add: restoreArchive_def)
    next
      case sset: (Ok sset)
      show ?thesis
      proof (cases "generateDependencyGraph sys (ResourceForGVK (recording api) s1) backupPath
                      transformers emptyGraph")
        case (Panic p)
        with crd ok1 sset j1 assms show ?thesis by (auto simp add: restoreArchive_def)
      next
        case (Error e)
        with crd ok1 sset j1 assms show ?thesis by (auto simp add: restoreArchive_def)
      next
        case g: (Ok g)
        obtain r2 st where replay:
          "createFromDependencyGraph (recording api) s1 (ownerToDependentsList g) createdMap
             (numOwnerReferences g) (toRestore g) sset = (r2, st)"
          by (metis surj_pair)
        from journal_createFromDependencyGraph[OF replay] j1
        have j2: "snd (cluster st) = snd s @ concat (map requested (ins @ attempts st))"
          by simp
        show ?thesis
        proof (cases r2)
          case (Panic p)
          with crd ok1 sset g replay j2 assms show ?thesis by (auto simp add: restoreArchive_def)
        next
          case (Error e)
          with crd ok1 sset g replay j2 assms show ?thesis by (auto simp add: restoreArchive_def)
        next
          case ok2: (Ok u2)
          obtain pe c3 where pr:
            "(if Prune spec
              then prune (unrecorded ops) (cluster st)
                     (TrimSuffix (BackupFilename spec) ''.tar.gz'')
                     backupPath (DeleteTimeout spec) transformers
              else (None, cluster st)) = (pe, c3)"
            by (metis surj_pair)
          then have j3: "snd c3 = snd (cluster st)"
            by (auto simp add: unrecorded_def split: if_splits prod.splits)
          have "endCluster run = c3 \<and> installs run = ins \<and> replays run = attempts st"
            using crd ok1 sset g replay ok2 pr assms
            by (cases pe) (auto simp add: restoreArchive_def)
          with j2 j3 show ?thesis by simp
        qed
      qed
    qed
  qed
qed

lemma status_iff_rule:
  "statusRule hs cs
   \<Longrightarrow> statusRequested (requestsOf cs) \<longleftrightarrow> (objectRequested (requestsOf cs) \<and> hs)"
  by (auto simp add: statusRule_def requested_written)

lemma ok_written_afterWrite:
  "objectWritten pre \<Longrightarrow> objectWritten (fst (snd (afterCalls pre r)))"
  by (simp add: afterCalls_def written_append)

lemma ok_written_createOrUpdate:
  "fst (createOrUpdate api c g ns n obj md hs) = Ok u
   \<Longrightarrow> objectWritten (fst (snd (createOrUpdate api c g ns n obj md hs)))"
proof (cases "drGet api c g ns n")
  case (Inl err)
  assume ok: "fst (createOrUpdate api c g ns n obj md hs) = Ok u"
  show ?thesis
  proof (cases "IsNotFound err")
    case False
    with Inl ok show ?thesis by (simp add: createOrUpdate_def)
  next
    case True
    obtain cr c1 where cr: "drCreate api c g ns obj = (cr, c1)" by (metis surj_pair)
    show ?thesis
    proof (cases cr)
      case (Inl err')
      with \<open>drGet api c g ns n = Inl err\<close> True cr ok show ?thesis
        by (simp add: createOrUpdate_def)
    next
      case (Inr createdObj)
      have "objectWritten (fst (snd (afterCalls
               [Call GET g ns n False, Call CREATE g ns n True]
               (updateStatusIf api c1 g ns n createdObj hs))))"
        by (rule ok_written_afterWrite) (simp add: objectWritten_def)
      with \<open>drGet api c g ns n = Inl err\<close> True cr Inr show ?thesis
        by (simp add: createOrUpdate_def)
    qed
  qed
next
  case (Inr res)
  assume ok: "fst (createOrUpdate api c g ns n obj md hs) = Ok u"
  show ?thesis
  proof (cases "assertMap (mapIndex res metadataMapKey)")
    case None
    with Inr ok show ?thesis by (simp add: createOrUpdate_def)
  next
    case (Some resMetadata)
    show ?thesis
    proof (cases "assertString (mapIndex resMetadata ''resourceVersion'')")
      case None
      with Inr Some ok show ?thesis by (simp add: createOrUpdate_def)
    next
      case rv: (Some resourceVersion)
      let ?obj' = "AList.update metadataMapKey
                     (JObj (AList.update ''resourceVersion'' (JStr resourceVersion) md)) obj"
      obtain ur c1 where ur: "drUpdate api c g ns ?obj' = (ur, c1)" by (metis surj_pair)
      show ?thesis
      proof (cases ur)
        case (Inl err)
        with \<open>drGet api c g ns n = Inr res\<close> Some rv ur ok show ?thesis
          by (simp add: createOrUpdate_def)
      next
        case updated: (Inr x)
        have "objectWritten (fst (snd (afterCalls
               [Call GET g ns n True, Call UPDATE g ns n True]
               (updateStatusIf api c1 g ns n ?obj' hs))))"
          by (rule ok_written_afterWrite) (simp add: objectWritten_def)
        with \<open>drGet api c g ns n = Inr res\<close> Some rv ur updated show ?thesis
          by (simp add: createOrUpdate_def)
      qed
    qed
  qed
qed

lemma ok_written_after_reads:
  "(fst r = Ok u \<Longrightarrow> objectWritten (fst (snd r)))
   \<Longrightarrow> fst (afterCalls pre r) = Ok u \<Longrightarrow> objectWritten (fst (snd (afterCalls pre r)))"
  by (simp add: afterCalls_def written_append)

lemma ok_written_restoreResource:
  assumes ok: "fst (restoreResource api c currRestoreObj g hs) = Ok u"
  shows "objectWritten (fst (snd (restoreResource api c currRestoreObj g hs)))"
proof (cases "Data currRestoreObj")
  case None
  with ok show ?thesis by (simp add: restoreResource_def)
next
  case (Some fileMap)
  show ?thesis
  proof (cases "assertMap (mapIndex fileMap metadataMapKey)")
    case None
    with Some ok show ?thesis by (simp add: restoreResource_def)
  next
    case md: (Some fileMapMetadata)
    show ?thesis
    proof (cases "assertString (mapIndex fileMapMetadata ''name'')")
      case None
      with Some md ok show ?thesis by (simp add: restoreResource_def)
    next
      case nm: (Some name)
      let ?ns = "stringOrEmpty (mapIndex fileMapMetadata ''namespace'')"
      show ?thesis
      proof (cases "assertSlice (mapIndex fileMapMetadata ownerRefsMapKey)")
        case None
        with Some md nm ok show ?thesis
          by (simp add: restoreResource_def Let_def ok_written_createOrUpdate)
      next
        case refs: (Some ownerReferences)
        show ?thesis
        proof (cases "fst (updateOwnerRefs api c ?ns ownerReferences)")
          case (Ok refs')
          let ?md' = "AList.update ownerRefsMapKey (JArr refs') fileMapMetadata"
          let ?obj = "AList.update metadataMapKey (JObj ?md') fileMap"
          let ?r = "createOrUpdate api c g ?ns name ?obj ?md' hs"
          let ?pre = "snd (updateOwnerRefs api c ?ns ownerReferences)"
          have eq: "restoreResource api c currRestoreObj g hs = afterCalls ?pre ?r"
            using Some md nm refs Ok by (simp add: restoreResource_def Let_def)
          with ok have "fst (afterCalls ?pre ?r) = Ok u" by simp
          then have "objectWritten (fst (snd (afterCalls ?pre ?r)))"
            by (rule ok_written_after_reads[rotated]) (rule ok_written_createOrUpdate)
          with eq show ?thesis by simp
        next
          case (Error e)
          with Some md nm refs ok show ?thesis
            by (simp add: restoreResource_def Let_def)
        next
          case (Panic p)
          with Some md nm refs ok show ?thesis
            by (simp add: restoreResource_def Let_def)
        qed
      qed
    qed
  qed
qed

lemma replayStep_ok_written:
  assumes "\<forall>a \<in> set (attempts st). outcome a = Ok () \<longrightarrow> objectWritten (calls a)"
      and "replayStep api sset st = Continue st' \<or> replayStep api sset st = Stop st' p"
  shows "\<forall>a \<in> set (attempts st'). outcome a = Ok () \<longrightarrow> objectWritten (calls a)"
proof (cases "toRestore (graphOf st)")
  case Nil
  with assms(2) show ?thesis by (simp add: replayStep_def)
next
  case (Cons currObj rest)
  show ?thesis
  proof (cases "lookupBool (created st) (ResourceConfigPath currObj)")
    case True
    with assms Cons show ?thesis by (auto simp add: replayStep_def)
  next
    case False
    let ?hs = "lookupBool sset (gvrString (GVR currObj))"
    obtain r cs c' where rr: "restoreResource api (cluster st) currObj (GVR currObj) ?hs = (r, cs, c')"
      by (metis prod_cases3)
    have new: "r = Ok () \<longrightarrow> objectWritten cs"
      using ok_written_restoreResource[of api "cluster st" currObj "GVR currObj" ?hs "()"] rr
      by simp
    have "attempts st' = attempts st @ [\<lparr>applied = currObj, calls = cs, outcome = r\<rparr>]"
      using assms(2) Cons False rr
      by (cases r) (auto simp add: replayStep_def split: prod.splits)
    with assms(1) new show ?thesis by simp
  qed
qed

lemma createLoop_ok_written:
  "\<forall>a \<in> set (attempts st). outcome a = Ok () \<longrightarrow> objectWritten (calls a)
   \<Longrightarrow> createLoop api sset st = (st', po)
   \<Longrightarrow> \<forall>a \<in> set (attempts st'). outcome a = Ok () \<longrightarrow> objectWritten (calls a)"
proof (induction api sset st rule: createLoop.induct)
  case (1 api sset st)
  show ?case
  proof (cases "replayStep api sset st")
    case Done
    with "1.prems"(2) have "st' = st" by (subst (asm) createLoop.simps) simp
    with "1.prems"(1) show ?thesis by simp
  next
    case (Continue st1)
    with "1.prems"(2) have l: "createLoop api sset st1 = (st', po)"
      by (subst (asm) createLoop.simps) simp
    have "\<forall>a \<in> set (attempts st1). outcome a = Ok () \<longrightarrow> objectWritten (calls a)"
      using "1.prems"(1) Continue by (rule replayStep_ok_written[where p = undefined, OF _ disjI1])
    from "1.IH"[OF Continue this l] show ?thesis .
  next
    case (Stop st1 p)
    with "1.prems"(2) have "st' = st1" by (subst (asm) createLoop.simps) simp
    moreover have "\<forall>a \<in> set (attempts st1). outcome a = Ok () \<longrightarrow> objectWritten (calls a)"
      using "1.prems"(1) Stop by (rule replayStep_ok_written[OF _ disjI2])
    ultimately show ?thesis by simp
  qed
qed

lemma createFromDependencyGraph_ok_written:
  "createFromDependencyGraph api c deps createdMap num queue sset = (r, st)
   \<Longrightarrow> \<forall>a \<in> set (attempts st). outcome a = Ok () \<longrightarrow> objectWritten (calls a)"
proof -
  assume run: "createFromDependencyGraph api c deps createdMap num queue sset = (r, st)"
  let ?st0 = "\<lparr>graphOf = \<lparr>ownerToDependentsList = deps, toRestore = queue,
                            numOwnerReferences = num\<rparr>,
               created = createdMap, errList = [], countRestored = 0,
               cluster = c, attempts = []\<rparr>"
  obtain po where l: "createLoop api sset ?st0 = (st, po)"
    using run by (auto simp add: createFromDependencyGraph_def split: prod.splits option.splits)
  have "\<forall>a \<in> set (attempts ?st0). outcome a = Ok () \<longrightarrow> objectWritten (calls a)" by simp
  from createLoop_ok_written[OF this l] show ?thesis .
qed

lemma restoreArchive_ok_written:
  "\<forall>a \<in> set (replays (restoreArchive sys api ops c spec backupPath transformers)).
     outcome a = Ok () \<longrightarrow> objectWritten (calls a)"
proof -
  obtain r1 createdMap c1 ins where
    crd: "restoreCRDs sys api backupPath transformers Map.empty c = (r1, createdMap, c1, ins)"
    by (metis prod_cases4)
  show ?thesis
  proof (cases r1)
    case (Ok u)
    show ?thesis
    proof (cases "findResourcesWithStatusSubresource sys backupPath")
      case sset: (Ok sset)
      show ?thesis
      proof (cases "generateDependencyGraph sys (ResourceForGVK api c1) backupPath transformers
                      emptyGraph")
        case g: (Ok g)
        obtain r2 st where run: "createFromDependencyGraph api c1 (ownerToDependentsList g)
            createdMap (numOwnerReferences g) (toRestore g) sset = (r2, st)"
          by (metis surj_pair)
        have "replays (restoreArchive sys api ops c spec backupPath transformers) = attempts st"
          using crd Ok sset g run
          by (cases r2) (simp_all add: restoreArchive_def split: prod.splits option.splits)
        with createFromDependencyGraph_ok_written[OF run] show ?thesis by simp
      next
        case (Error e)
        with crd Ok sset show ?thesis by (simp add: restoreArchive_def)
      next
        case (Panic p)
        with crd Ok sset show ?thesis by (simp add: restoreArchive_def)
      qed
    next
      case (Error e)
      with crd Ok show ?thesis by (simp add: restoreArchive_def)
    next
      case (Panic p)
      with crd Ok show ?thesis by (simp add: restoreArchive_def)
    qed
  next
    case (Error e)
    with crd show ?thesis by (simp add: restoreArchive_def)
  next
    case (Panic p)
    with crd show ?thesis by (simp add: restoreArchive_def)
  qed
qed

lemma follows_updateStatusIf:
  "updateStatusIf api c g ns n obj hs = (r, cs, c') \<Longrightarrow> statusWritten cs
   \<Longrightarrow> \<exists>ok. requestsOf cs = [Request UPDATE_STATUS g ns ok]"
  by (auto simp add: updateStatusIf_def statusWritten_def
           split: if_splits prod.splits sum.splits)

lemma follows_afterWrite:
  assumes "v = CREATE \<or> v = UPDATE"
      and "statusWritten (fst (snd (afterCalls [Call GET g ns n found, Call v g ns n True]
                                     (updateStatusIf api c g ns n obj hs))))"
  shows "followsWrite g (requestsOf (fst (snd (afterCalls
                                     [Call GET g ns n found, Call v g ns n True]
                                     (updateStatusIf api c g ns n obj hs)))))"
proof -
  obtain r cs c' where u: "updateStatusIf api c g ns n obj hs = (r, cs, c')"
    by (metis prod_cases3)
  from assms(1) have "\<not> statusWritten [Call GET g ns n found, Call v g ns n True]"
    by (auto simp add: statusWritten_def)
  moreover from assms(2) u
  have "statusWritten ([Call GET g ns n found, Call v g ns n True] @ cs)"
    by (simp add: afterCalls_def)
  ultimately have "statusWritten cs"
    by (simp only: written_append) simp
  from follows_updateStatusIf[OF u this] obtain ok
    where "requestsOf cs = [Request UPDATE_STATUS g ns ok]" ..
  with assms(1) u show ?thesis
    by (auto simp add: afterCalls_def requestsOf_append)
qed

lemma follows_createOrUpdate:
  assumes st: "statusWritten (fst (snd (createOrUpdate api c g ns n obj md hs)))"
  shows "followsWrite g (requestsOf (fst (snd (createOrUpdate api c g ns n obj md hs))))"
proof (cases "drGet api c g ns n")
  case (Inl err)
  show ?thesis
  proof (cases "IsNotFound err")
    case False
    with Inl st show ?thesis by (simp add: createOrUpdate_def statusWritten_def)
  next
    case True
    obtain cr c1 where cr: "drCreate api c g ns obj = (cr, c1)" by (metis surj_pair)
    show ?thesis
    proof (cases cr)
      case (Inl err')
      with \<open>drGet api c g ns n = Inl err\<close> True cr st show ?thesis
        by (simp add: createOrUpdate_def statusWritten_def)
    next
      case (Inr createdObj)
      with \<open>drGet api c g ns n = Inl err\<close> True cr
      have eq: "createOrUpdate api c g ns n obj md hs
                = afterCalls [Call GET g ns n False, Call CREATE g ns n True]
                    (updateStatusIf api c1 g ns n createdObj hs)"
        by (simp add: createOrUpdate_def)
      from st have "followsWrite g (requestsOf (fst (snd (afterCalls
                      [Call GET g ns n False, Call CREATE g ns n True]
                      (updateStatusIf api c1 g ns n createdObj hs)))))"
        unfolding eq by (rule follows_afterWrite[rotated]) simp
      with eq show ?thesis by simp
    qed
  qed
next
  case (Inr res)
  show ?thesis
  proof (cases "assertMap (mapIndex res metadataMapKey)")
    case None
    with Inr st show ?thesis by (simp add: createOrUpdate_def statusWritten_def)
  next
    case (Some resMetadata)
    show ?thesis
    proof (cases "assertString (mapIndex resMetadata ''resourceVersion'')")
      case None
      with Inr Some st show ?thesis by (simp add: createOrUpdate_def statusWritten_def)
    next
      case rv: (Some resourceVersion)
      let ?obj' = "AList.update metadataMapKey
                     (JObj (AList.update ''resourceVersion'' (JStr resourceVersion) md)) obj"
      obtain ur c1 where ur: "drUpdate api c g ns ?obj' = (ur, c1)" by (metis surj_pair)
      show ?thesis
      proof (cases ur)
        case (Inl err)
        with \<open>drGet api c g ns n = Inr res\<close> Some rv ur st show ?thesis
          by (simp add: createOrUpdate_def statusWritten_def)
      next
        case updated: (Inr x)
        with \<open>drGet api c g ns n = Inr res\<close> Some rv ur
        have eq: "createOrUpdate api c g ns n obj md hs
                  = afterCalls [Call GET g ns n True, Call UPDATE g ns n True]
                      (updateStatusIf api c1 g ns n ?obj' hs)"
          by (simp add: createOrUpdate_def)
        from st have "followsWrite g (requestsOf (fst (snd (afterCalls
                        [Call GET g ns n True, Call UPDATE g ns n True]
                        (updateStatusIf api c1 g ns n ?obj' hs)))))"
          unfolding eq by (rule follows_afterWrite[rotated]) simp
        with eq show ?thesis by simp
      qed
    qed
  qed
qed

lemma gets_not_status: "requestsOf cs = [] \<Longrightarrow> \<not> statusWritten cs"
  by (induction cs rule: requestsOf.induct)
     (auto simp add: statusWritten_def split: if_splits)

lemma follows_restoreResource:
  assumes st: "statusWritten (fst (snd (restoreResource api c currRestoreObj g hs)))"
  shows "followsWrite g (requestsOf (fst (snd (restoreResource api c currRestoreObj g hs))))"
proof (cases "Data currRestoreObj")
  case None
  with st show ?thesis by (simp add: restoreResource_def statusWritten_def)
next
  case (Some fileMap)
  show ?thesis
  proof (cases "assertMap (mapIndex fileMap metadataMapKey)")
    case None
    with Some st show ?thesis by (simp add: restoreResource_def statusWritten_def)
  next
    case md: (Some fileMapMetadata)
    show ?thesis
    proof (cases "assertString (mapIndex fileMapMetadata ''name'')")
      case None
      with Some md st show ?thesis by (simp add: restoreResource_def statusWritten_def)
    next
      case nm: (Some name)
      let ?ns = "stringOrEmpty (mapIndex fileMapMetadata ''namespace'')"
      show ?thesis
      proof (cases "assertSlice (mapIndex fileMapMetadata ownerRefsMapKey)")
        case None
        with Some md nm have eq: "restoreResource api c currRestoreObj g hs
                = createOrUpdate api c g ?ns name fileMap fileMapMetadata hs"
          by (simp add: restoreResource_def Let_def)
        from st show ?thesis unfolding eq by (rule follows_createOrUpdate)
      next
        case refs: (Some ownerReferences)
        let ?pre = "snd (updateOwnerRefs api c ?ns ownerReferences)"
        have gets: "requestsOf ?pre = []" by (rule gets_updateOwnerRefs)
        then have nost: "\<not> statusWritten ?pre" by (rule gets_not_status)
        show ?thesis
        proof (cases "fst (updateOwnerRefs api c ?ns ownerReferences)")
          case (Ok refs')
          let ?md' = "AList.update ownerRefsMapKey (JArr refs') fileMapMetadata"
          let ?obj = "AList.update metadataMapKey (JObj ?md') fileMap"
          let ?r = "createOrUpdate api c g ?ns name ?obj ?md' hs"
          have eq: "restoreResource api c currRestoreObj g hs = afterCalls ?pre ?r"
            using Some md nm refs Ok by (simp add: restoreResource_def Let_def)
          from st nost have "statusWritten (fst (snd ?r))"
            unfolding eq by (simp add: afterCalls_def written_append)
          then have "followsWrite g (requestsOf (fst (snd ?r)))"
            by (rule follows_createOrUpdate)
          with gets show ?thesis
            unfolding eq by (simp add: afterCalls_def requestsOf_append)
        next
          case (Error e)
          with Some md nm refs have "fst (snd (restoreResource api c currRestoreObj g hs)) = ?pre"
            by (simp add: restoreResource_def Let_def)
          with st nost show ?thesis by simp
        next
          case (Panic p)
          with Some md nm refs have "fst (snd (restoreResource api c currRestoreObj g hs)) = ?pre"
            by (simp add: restoreResource_def Let_def)
          with st nost show ?thesis by simp
        qed
      qed
    qed
  qed
qed

lemma replayStep_follows:
  assumes "\<forall>a \<in> set (attempts st).
             statusWritten (calls a) \<longrightarrow> followsWrite (GVR (applied a)) (requestsOf (calls a))"
      and "replayStep api sset st = Continue st' \<or> replayStep api sset st = Stop st' p"
  shows "\<forall>a \<in> set (attempts st').
             statusWritten (calls a) \<longrightarrow> followsWrite (GVR (applied a)) (requestsOf (calls a))"
proof (cases "toRestore (graphOf st)")
  case Nil
  with assms(2) show ?thesis by (simp add: replayStep_def)
next
  case (Cons currObj rest)
  show ?thesis
  proof (cases "lookupBool (created st) (ResourceConfigPath currObj)")
    case True
    with assms Cons show ?thesis by (auto simp add: replayStep_def)
  next
    case False
    let ?hs = "lookupBool sset (gvrString (GVR currObj))"
    obtain r cs c' where rr: "restoreResource api (cluster st) currObj (GVR currObj) ?hs = (r, cs, c')"
      by (metis prod_cases3)
    have new: "statusWritten cs \<longrightarrow> followsWrite (GVR currObj) (requestsOf cs)"
      using follows_restoreResource[of api "cluster st" currObj "GVR currObj" ?hs] rr
      by simp
    have "attempts st' = attempts st @ [\<lparr>applied = currObj, calls = cs, outcome = r\<rparr>]"
      using assms(2) Cons False rr
      by (cases r) (auto simp add: replayStep_def split: prod.splits)
    with assms(1) new show ?thesis by simp
  qed
qed

lemma createLoop_follows:
  "\<forall>a \<in> set (attempts st).
     statusWritten (calls a) \<longrightarrow> followsWrite (GVR (applied a)) (requestsOf (calls a))
   \<Longrightarrow> createLoop api sset st = (st', po)
   \<Longrightarrow> \<forall>a \<in> set (attempts st').
         statusWritten (calls a) \<longrightarrow> followsWrite (GVR (applied a)) (requestsOf (calls a))"
proof (induction api sset st rule: createLoop.induct)
  case (1 api sset st)
  show ?case
  proof (cases "replayStep api sset st")
    case Done
    with "1.prems"(2) have "st' = st" by (subst (asm) createLoop.simps) simp
    with "1.prems"(1) show ?thesis by simp
  next
    case (Continue st1)
    with "1.prems"(2) have l: "createLoop api sset st1 = (st', po)"
      by (subst (asm) createLoop.simps) simp
    have "\<forall>a \<in> set (attempts st1).
            statusWritten (calls a) \<longrightarrow> followsWrite (GVR (applied a)) (requestsOf (calls a))"
      using "1.prems"(1) Continue by (rule replayStep_follows[where p = undefined, OF _ disjI1])
    from "1.IH"[OF Continue this l] show ?thesis .
  next
    case (Stop st1 p)
    with "1.prems"(2) have "st' = st1" by (subst (asm) createLoop.simps) simp
    moreover have "\<forall>a \<in> set (attempts st1).
            statusWritten (calls a) \<longrightarrow> followsWrite (GVR (applied a)) (requestsOf (calls a))"
      using "1.prems"(1) Stop by (rule replayStep_follows[OF _ disjI2])
    ultimately show ?thesis by simp
  qed
qed

lemma createFromDependencyGraph_follows:
  "createFromDependencyGraph api c deps createdMap num queue sset = (r, st)
   \<Longrightarrow> \<forall>a \<in> set (attempts st).
         statusWritten (calls a) \<longrightarrow> followsWrite (GVR (applied a)) (requestsOf (calls a))"
proof -
  assume run: "createFromDependencyGraph api c deps createdMap num queue sset = (r, st)"
  let ?st0 = "\<lparr>graphOf = \<lparr>ownerToDependentsList = deps, toRestore = queue,
                            numOwnerReferences = num\<rparr>,
               created = createdMap, errList = [], countRestored = 0,
               cluster = c, attempts = []\<rparr>"
  obtain po where l: "createLoop api sset ?st0 = (st, po)"
    using run by (auto simp add: createFromDependencyGraph_def split: prod.splits option.splits)
  have "\<forall>a \<in> set (attempts ?st0).
          statusWritten (calls a) \<longrightarrow> followsWrite (GVR (applied a)) (requestsOf (calls a))"
    by simp
  from createLoop_follows[OF this l] show ?thesis .
qed

lemma restoreArchive_follows:
  "\<forall>a \<in> set (replays (restoreArchive sys api ops c spec backupPath transformers)).
     statusWritten (calls a) \<longrightarrow> followsWrite (GVR (applied a)) (requestsOf (calls a))"
proof -
  obtain r1 createdMap c1 ins where
    crd: "restoreCRDs sys api backupPath transformers Map.empty c = (r1, createdMap, c1, ins)"
    by (metis prod_cases4)
  show ?thesis
  proof (cases r1)
    case (Ok u)
    show ?thesis
    proof (cases "findResourcesWithStatusSubresource sys backupPath")
      case sset: (Ok sset)
      show ?thesis
      proof (cases "generateDependencyGraph sys (ResourceForGVK api c1) backupPath transformers
                      emptyGraph")
        case g: (Ok g)
        obtain r2 st where run: "createFromDependencyGraph api c1 (ownerToDependentsList g)
            createdMap (numOwnerReferences g) (toRestore g) sset = (r2, st)"
          by (metis surj_pair)
        have "replays (restoreArchive sys api ops c spec backupPath transformers) = attempts st"
          using crd Ok sset g run
          by (cases r2) (simp_all add: restoreArchive_def split: prod.splits option.splits)
        with createFromDependencyGraph_follows[OF run] show ?thesis by simp
      next
        case (Error e)
        with crd Ok sset show ?thesis by (simp add: restoreArchive_def)
      next
        case (Panic p)
        with crd Ok sset show ?thesis by (simp add: restoreArchive_def)
      qed
    next
      case (Error e)
      with crd Ok show ?thesis by (simp add: restoreArchive_def)
    next
      case (Panic p)
      with crd Ok show ?thesis by (simp add: restoreArchive_def)
    qed
  next
    case (Error e)
    with crd show ?thesis by (simp add: restoreArchive_def)
  next
    case (Panic p)
    with crd show ?thesis by (simp add: restoreArchive_def)
  qed
qed

lemma okOr_eq: "isOkR r \<Longrightarrow> r = Ok (okOr d r)"
  by (cases r) (simp_all add: isOkR_def okOr_def)

lemma exGraph_built: "generateDependencyGraph exSys exMapping ''/b'' noTransformers emptyGraph = Ok exGraph"
  unfolding exGraph_def by (rule okOr_eq) code_simp

lemma exArchive_distinct: "distinct (map ResourceConfigPath (archiveObjects exSys noTransformers ''/b''))"
  by code_simp

lemma exA_in_archive: "exA \<in> set (archiveObjects exSys noTransformers ''/b'')"
  by code_simp

lemma exA_parent_of_exB: "ResourceConfigPath exA \<in> set (ownerPaths exMapping ''/b'' exB)"
  by code_simp

lemma exReplay_third: "applied (attempts (snd exReplay) ! 2) = exB"
  by code_simp

lemma exReplay_length: "length (attempts (snd exReplay)) = 3"
  by code_simp

lemma exB_in_archive: "exB \<in> set (archiveObjects exSys noTransformers ''/b'')"
  by code_simp

lemma exB_ownerRefs:
  "ownerRefsOf exB =
     Some [JObj [(''apiVersion'', JStr ''g/v1''), (''kind'', JStr ''A''), (''name'', JStr ''a'')]]"
  by code_simp

lemma join_crd_v1:
  "Join [''/b'', ''customresourcedefinitions.apiextensions.k8s.io#v1'']
     = ''/b/customresourcedefinitions.apiextensions.k8s.io#v1''"
  by code_simp

lemma join_crd_v1beta1:
  "Join [''/b'', ''customresourcedefinitions.apiextensions.k8s.io#v1beta1'']
     = ''/b/customresourcedefinitions.apiextensions.k8s.io#v1beta1''"
  by code_simp

lemma join_status_file:
  "Join [''/b'', ''filters'', ''statussubresource.json''] = ''/b/filters/statussubresource.json''"
  by code_simp

lemma exRun_status_set: "findResourcesWithStatusSubresource exSys ''/b'' = Ok exStatusSet"
  by (simp add: findResourcesWithStatusSubresource_def join_status_file exSys_def memSys_def
                exStatusSet_def)

lemma journalRun_length: "length (replays journalRun) = 3"
  by code_simp

section \<open>The claims\<close>

subsection \<open>C1: parents are applied before their dependents\<close>

text \<open>
  Claim C1. For every pair of objects \<open>A\<close> and \<open>B\<close> of the archive such that \<open>A\<close> appears in
  the owner-reference list of \<open>B\<close> (the sourcePath the builder computes for one of the
  references of \<open>B\<close> is the sourcePath of \<open>A\<close>): if the replay applies \<open>B\<close>, then it has
  applied \<open>A\<close> successfully at an earlier attempt. The graph is the one
  \<open>generateDependencyGraph\<close> built from the archive, whose files have distinct paths; the
  created map and the cluster the replay starts from are arbitrary, and the statement
  covers a replay that ends in a panic.
\<close>

theorem parents_applied_first:
  assumes "generateDependencyGraph sys rfg backupPath transformers emptyGraph = Ok g"
      and "distinct (map ResourceConfigPath (archiveObjects sys transformers backupPath))"
      and "createFromDependencyGraph api c (ownerToDependentsList g) createdMap
             (numOwnerReferences g) (toRestore g) resourcesWithStatusSubresource = (r, st)"
      and "A \<in> set (archiveObjects sys transformers backupPath)"
      and "ResourceConfigPath A \<in> set (ownerPaths rfg backupPath B)"
      and "i < length (attempts st)"
      and "applied (attempts st ! i) = B"
  shows "\<exists>j < i. applied (attempts st ! j) = A \<and> outcome (attempts st ! j) = Ok ()"
proof -
  let ?objs = "archiveObjects sys transformers backupPath"
  have inv: "replayInv rfg backupPath ?objs st"
    using assms(1,2,3) by (rule replay_attempts_inv)
  then have pf: "parentsFirst rfg backupPath (attempts st)"
    and ap: "\<forall>a \<in> set (attempts st). applied a \<in> set ?objs"
    unfolding replayInv_def by blast+
  from pf assms(5,6,7) obtain j where j: "j < i"
    "ResourceConfigPath (applied (attempts st ! j)) = ResourceConfigPath A"
    "outcome (attempts st ! j) = Ok ()"
    unfolding parentsFirst_def by blast
  from j(1) assms(6) have "attempts st ! j \<in> set (attempts st)" by simp
  with ap have "applied (attempts st ! j) \<in> set ?objs" by blast
  moreover have "inj_on ResourceConfigPath (set ?objs)"
    using assms(2) by (simp add: distinct_map)
  ultimately have "applied (attempts st ! j) = A"
    using j(2) assms(4) by (auto dest: inj_onD)
  with j(1,3) show ?thesis by blast
qed

theorem parents_applied_first_witness:
  "distinct (map ResourceConfigPath (archiveObjects exSys noTransformers ''/b''))
   \<and> exA \<in> set (archiveObjects exSys noTransformers ''/b'')
   \<and> ResourceConfigPath exA \<in> set (ownerPaths exMapping ''/b'' exB)
   \<and> applied (attempts (snd exReplay) ! 2) = exB
   \<and> (\<exists>j < 2. applied (attempts (snd exReplay) ! j) = exA
                \<and> outcome (attempts (snd exReplay) ! j) = Ok ())"
proof -
  have run: "createFromDependencyGraph (memApi exMapping []) [] (ownerToDependentsList exGraph)
                Map.empty (numOwnerReferences exGraph) (toRestore exGraph) exStatusSet
             = (fst exReplay, snd exReplay)"
    by (simp add: exReplay_def)
  have i: "2 < length (attempts (snd exReplay))" by (simp add: exReplay_length)
  from parents_applied_first[OF exGraph_built exArchive_distinct run exA_in_archive exA_parent_of_exB i exReplay_third]
  obtain j where "j < 2" "applied (attempts (snd exReplay) ! j) = exA"
    "outcome (attempts (snd exReplay) ! j) = Ok ()" by blast
  then show ?thesis
    using exArchive_distinct exA_in_archive exA_parent_of_exB exReplay_third by blast
qed

subsection \<open>C2: an object owned by an installed definition\<close>

text \<open>
  Claim C2 says that an object whose owners are all definitions of the archive, installed
  successfully, has its counter brought to zero and is applied. The code does not do
  that. On the archive with the definition \<open>ws.g\<close> and its dependent \<open>w\<close>: the installer
  applies the definition and marks its sourcePath created; the replay then meets the
  definition in the queue, finds it created and skips it together with the notification
  of its dependents; \<open>w\<close> is never applied, and the handler returns success.
\<close>

theorem crd_owned_object_never_applied:
  "archiveObjects crdSys noTransformers ''/b''
     = [\<lparr>Name = ''ws.g'', Namespace = [],
         GVR = \<lparr>Group = ''apiextensions.k8s.io'', Version = ''v1beta1'',
                 Resource = ''customresourcedefinitions''\<rparr>,
         ResourceConfigPath =
           ''/b/customresourcedefinitions.apiextensions.k8s.io#v1beta1/ws.g.json'',
         Data = Some objCRD\<rparr>,
        exW]
   \<and> ownerPaths exMapping ''/b'' exW
     = [''/b/customresourcedefinitions.apiextensions.k8s.io#v1beta1/ws.g.json'']
   \<and> outcomes (installs crdRun) = [(''ws.g'', Ok ())]
   \<and> outcomes (replays crdRun) = []
   \<and> returned crdRun = Ok ()"
  by code_simp

subsection \<open>C3: the status write follows the status set\<close>

text \<open>
  Claim C3, as amended. For every object the replay engine applied, the follow-up
  status-subresource write is performed if and only if the object's \<open>GVR.String()\<close>, the
  string \<open><group>/<version>, Resource=<resource>\<close>, is a true entry of the set loaded
  from \<open>filters/statussubresource.json\<close>.

  The restore runs on a cluster that keeps a journal of the writes asked of it. The
  journal it leaves is the writes of the installs and of the attempts of the replay, in
  order. For every attempt of the replay: an apply that returned no error wrote its
  object; the status write was asked exactly when the object was written and the
  string is a true entry of the set; and a status write that was asked is the request
  right after the write of the object, on the object's resource and in the same
  namespace.
\<close>

theorem status_write_iff_gvr_string_in_status_set:
  assumes "findResourcesWithStatusSubresource sys backupPath = Ok resourcesWithStatusSubresource"
      and "restoreArchive sys (recording api) (unrecorded ops) (c, []) spec backupPath transformers
           = run"
  shows "snd (endCluster run) = concat (map requested (installs run @ replays run))
         \<and> (\<forall>a \<in> set (replays run).
               (outcome a = Ok () \<longrightarrow> objectRequested (requested a))
               \<and> (statusRequested (requested a)
                   \<longleftrightarrow> (objectRequested (requested a)
                        \<and> lookupBool resourcesWithStatusSubresource
                             (gvrString (GVR (applied a)))))
               \<and> (statusRequested (requested a)
                   \<longrightarrow> followsWrite (GVR (applied a)) (requested a)))"
proof -
  from journal_restoreArchive[OF assms(2)]
  have journal: "snd (endCluster run) = concat (map requested (installs run @ replays run))"
    by simp
  have "attemptsFollowRule resourcesWithStatusSubresource (replays run)"
    using restoreArchive_rule[OF assms(1), where api = "recording api"
            and ops = "unrecorded ops" and c = "(c, [])" and spec = spec
            and transformers = transformers] assms(2)
    by simp
  then have rule: "\<forall>a \<in> set (replays run).
               statusRequested (requested a)
               \<longleftrightarrow> (objectRequested (requested a)
                    \<and> lookupBool resourcesWithStatusSubresource (gvrString (GVR (applied a))))"
    unfolding attemptsFollowRule_def requested_def by (blast dest: status_iff_rule)
  have "\<forall>a \<in> set (replays run). outcome a = Ok () \<longrightarrow> objectWritten (calls a)"
    using restoreArchive_ok_written[of sys "recording api" "unrecorded ops" "(c, [])" spec
            backupPath transformers] assms(2)
    by simp
  then have ok: "\<forall>a \<in> set (replays run). outcome a = Ok () \<longrightarrow> objectRequested (requested a)"
    by (simp add: requested_def requested_written)
  have "\<forall>a \<in> set (replays run).
          statusWritten (calls a) \<longrightarrow> followsWrite (GVR (applied a)) (requestsOf (calls a))"
    using restoreArchive_follows[of sys "recording api" "unrecorded ops" "(c, [])" spec
            backupPath transformers] assms(2)
    by simp
  then have follows: "\<forall>a \<in> set (replays run).
          statusRequested (requested a) \<longrightarrow> followsWrite (GVR (applied a)) (requested a)"
    by (simp add: requested_def requested_written)
  from journal rule ok follows show ?thesis by blast
qed

theorem status_write_iff_gvr_string_in_status_set_witness:
  "findResourcesWithStatusSubresource exSys ''/b'' = Ok exStatusSet
   \<and> outcomes (replays journalRun) = [(''a'', Ok ()), (''c'', Ok ()), (''b'', Ok ())]
   \<and> snd (endCluster journalRun) =
       [Request CREATE \<lparr>Group = ''g'', Version = ''v1'', Resource = ''as''\<rparr> [] True,
        Request UPDATE_STATUS \<lparr>Group = ''g'', Version = ''v1'', Resource = ''as''\<rparr> [] True,
        Request CREATE \<lparr>Group = ''g'', Version = ''v1'', Resource = ''as''\<rparr> [] True,
        Request UPDATE_STATUS \<lparr>Group = ''g'', Version = ''v1'', Resource = ''as''\<rparr> [] True,
        Request CREATE \<lparr>Group = ''g'', Version = ''v1'', Resource = ''bs''\<rparr> ''ns1'' True]
   \<and> outcome (replays journalRun ! 0) = Ok ()
   \<and> objectRequested (requested (replays journalRun ! 0))
   \<and> statusRequested (requested (replays journalRun ! 0))
   \<and> lookupBool exStatusSet (gvrString (GVR (applied (replays journalRun ! 0))))
   \<and> followsWrite (GVR (applied (replays journalRun ! 0))) (requested (replays journalRun ! 0))
   \<and> outcome (replays journalRun ! 2) = Ok ()
   \<and> objectRequested (requested (replays journalRun ! 2))
   \<and> \<not> statusRequested (requested (replays journalRun ! 2))
   \<and> \<not> lookupBool exStatusSet (gvrString (GVR (applied (replays journalRun ! 2))))"
proof -
  note rule = status_write_iff_gvr_string_in_status_set
                [OF exRun_status_set journalRun_def[symmetric]]
  have m0: "replays journalRun ! 0 \<in> set (replays journalRun)" by (simp add: journalRun_length)
  have m2: "replays journalRun ! 2 \<in> set (replays journalRun)" by (simp add: journalRun_length)
  have o: "outcomes (replays journalRun) = [(''a'', Ok ()), (''c'', Ok ()), (''b'', Ok ())]"
    by code_simp
  have asked: "concat (map requested (installs journalRun @ replays journalRun)) =
       [Request CREATE \<lparr>Group = ''g'', Version = ''v1'', Resource = ''as''\<rparr> [] True,
        Request UPDATE_STATUS \<lparr>Group = ''g'', Version = ''v1'', Resource = ''as''\<rparr> [] True,
        Request CREATE \<lparr>Group = ''g'', Version = ''v1'', Resource = ''as''\<rparr> [] True,
        Request UPDATE_STATUS \<lparr>Group = ''g'', Version = ''v1'', Resource = ''as''\<rparr> [] True,
        Request CREATE \<lparr>Group = ''g'', Version = ''v1'', Resource = ''bs''\<rparr> ''ns1'' True]"
    by code_simp
  have k0: "outcome (replays journalRun ! 0) = Ok ()" by code_simp
  have k2: "outcome (replays journalRun ! 2) = Ok ()" by code_simp
  have s0: "statusRequested (requested (replays journalRun ! 0))" by code_simp
  have s2: "\<not> statusRequested (requested (replays journalRun ! 2))" by code_simp
  from rule asked have j: "snd (endCluster journalRun) =
       [Request CREATE \<lparr>Group = ''g'', Version = ''v1'', Resource = ''as''\<rparr> [] True,
        Request UPDATE_STATUS \<lparr>Group = ''g'', Version = ''v1'', Resource = ''as''\<rparr> [] True,
        Request CREATE \<lparr>Group = ''g'', Version = ''v1'', Resource = ''as''\<rparr> [] True,
        Request UPDATE_STATUS \<lparr>Group = ''g'', Version = ''v1'', Resource = ''as''\<rparr> [] True,
        Request CREATE \<lparr>Group = ''g'', Version = ''v1'', Resource = ''bs''\<rparr> ''ns1'' True]"
    by simp
  from rule m0 k0 have w0: "objectRequested (requested (replays journalRun ! 0))" by blast
  from rule m2 k2 have w2: "objectRequested (requested (replays journalRun ! 2))" by blast
  from rule m0 s0
  have l0: "lookupBool exStatusSet (gvrString (GVR (applied (replays journalRun ! 0))))"
    by blast
  from rule m0 s0
  have f0: "followsWrite (GVR (applied (replays journalRun ! 0)))
              (requested (replays journalRun ! 0))"
    by blast
  from rule m2 w2 s2
  have l2: "\<not> lookupBool exStatusSet (gvrString (GVR (applied (replays journalRun ! 2))))"
    by blast
  from exRun_status_set o j k0 w0 s0 l0 f0 k2 w2 s2 l2 show ?thesis by blast
qed

text \<open>
  The claim as stated fails on the archive whose status set is keyed
  \<open>group/version/resource\<close>: the key of \<open>a\<close> is a true entry of the set, \<open>a\<close> is
  applied, and the one write the cluster is asked is the CREATE.
\<close>

theorem slash_key_counterexample:
  "claimedStatusKey (GVR exA) = ''g/v1/as''
   \<and> lookupBool (okOr Map.empty (findResourcesWithStatusSubresource slashSys ''/b''))
       (claimedStatusKey (GVR exA))
   \<and> map applied (replays slashRun) = [exA]
   \<and> outcomes (replays slashRun) = [(''a'', Ok ())]
   \<and> objectRequested (requested (replays slashRun ! 0))
   \<and> \<not> statusRequested (requested (replays slashRun ! 0))
   \<and> snd (endCluster slashRun) =
       [Request CREATE \<lparr>Group = ''g'', Version = ''v1'', Resource = ''as''\<rparr> [] True]
   \<and> returned slashRun = Ok ()"
  by code_simp

subsection \<open>C4: the directory of a core-group parent\<close>

text \<open>
  Claim C4, as amended. For every owner reference whose parsed group is empty (core
  API), the parent sourcePath computed by the graph builder uses the base directory
  \<open><resource>.#<version>\<close>: the directory name is always built as
  \<open><resource>.<group>#<version>\<close>, and with an empty group the dot after the resource is
  kept. Below the base directory comes \<open><ownerName>.json\<close>, inside the namespace of the
  dependent when the parent's resource is namespaced.
\<close>

theorem core_group_owner_directory:
  assumes "assertString (mapIndex ownerRefData ''apiVersion'') = Some groupVersion"
      and "ParseGroupVersion groupVersion = Inr ([], version)"
      and "assertString (mapIndex ownerRefData ''kind'') = Some kind"
      and "rfg \<lparr>kindGroup = [], kindVersion = version, Kind = kind\<rparr> = Inr (ownerGVR, isNamespaced)"
      and "assertString (mapIndex ownerRefData ''name'') = Some ownerName"
  shows "ownerRestoreObj rfg backupPath currRestoreObj ownerRefData =
           Ok (Some \<lparr>Name = ownerName,
                     Namespace = (if isNamespaced then Namespace currRestoreObj else []),
                     GVR = ownerGVR,
                     ResourceConfigPath =
                       Join [backupPath, Resource ownerGVR @ ''.#'' @ version,
                             if isNamespaced
                             then Join [Namespace currRestoreObj, ownerName @ ''.json'']
                             else ownerName @ ''.json''],
                     Data = None\<rparr>)"
  using assms core_group_split[OF assms(2)]
  by (simp add: ownerRestoreObj_def Let_def)

theorem core_group_owner_directory_witness:
  "ParseGroupVersion ''v1'' = Inr ([], ''v1'')
   \<and> ownerRestoreObj exMapping ''/b'' exA
        [(''apiVersion'', JStr ''v1''), (''kind'', JStr ''Namespace''), (''name'', JStr ''ns1'')] =
       Ok (Some \<lparr>Name = ''ns1'', Namespace = [],
                 GVR = \<lparr>Group = [], Version = ''v1'', Resource = ''namespaces''\<rparr>,
                 ResourceConfigPath = Join [''/b'', ''namespaces.#v1'', ''ns1.json''],
                 Data = None\<rparr>)"
proof -
  let ?ref = "[(''apiVersion'', JStr ''v1''), (''kind'', JStr ''Namespace''), (''name'', JStr ''ns1'')]"
  have a: "assertString (mapIndex ?ref ''apiVersion'') = Some ''v1''" by code_simp
  have p: "ParseGroupVersion ''v1'' = Inr ([], ''v1'')" by code_simp
  have k: "assertString (mapIndex ?ref ''kind'') = Some ''Namespace''" by code_simp
  have m: "exMapping \<lparr>kindGroup = [], kindVersion = ''v1'', Kind = ''Namespace''\<rparr>
           = Inr (\<lparr>Group = [], Version = ''v1'', Resource = ''namespaces''\<rparr>, False)"
    by code_simp
  have n: "assertString (mapIndex ?ref ''name'') = Some ''ns1''" by code_simp
  from core_group_owner_directory[where rfg = exMapping and backupPath = "''/b''"
         and currRestoreObj = exA, OF a p k m n] p
  show ?thesis by simp
qed

text \<open>
  The claim as stated fails for the reference \<open>{apiVersion: v1, kind: Namespace, name: ns1}\<close>:
  the computed sourcePath lies in \<open>namespaces.#v1\<close>, not in \<open>namespaces#v1\<close>.
\<close>

theorem core_group_directory_counterexample:
  "ownerRestoreObj exMapping ''/b'' exA
        [(''apiVersion'', JStr ''v1''), (''kind'', JStr ''Namespace''), (''name'', JStr ''ns1'')] =
       Ok (Some \<lparr>Name = ''ns1'', Namespace = [],
                 GVR = \<lparr>Group = [], Version = ''v1'', Resource = ''namespaces''\<rparr>,
                 ResourceConfigPath = ''/b/namespaces.#v1/ns1.json'',
                 Data = None\<rparr>)
   \<and> Join [''/b'', ''namespaces#v1'', ''ns1.json''] = ''/b/namespaces#v1/ns1.json''
   \<and> ''/b/namespaces.#v1/ns1.json'' \<noteq> ''/b/namespaces#v1/ns1.json''"
  by code_simp

subsection \<open>C5: an empty owner-reference list\<close>

text \<open>
  Claim C5 says that an object with \<open>ownerReferences: []\<close> is treated like one without the
  field: queued with no owners and applied. The code does not do that. On the archive
  with \<open>e\<close> (empty list) and \<open>f\<close> (no field): only \<open>f\<close> enters the ready queue; \<open>e\<close> gets the
  counter 0, is nobody's dependent, and is never applied; the handler returns success.
\<close>

theorem empty_owner_list_never_applied:
  "archiveObjects emptyRefsSys noTransformers ''/b'' = [exE, exF]
   \<and> ownerRefsOf exE = Some []
   \<and> ownerRefsOf exF = None
   \<and> toRestore (okOr emptyGraph
         (generateDependencyGraph emptyRefsSys exMapping ''/b'' noTransformers emptyGraph)) = [exF]
   \<and> outcomes (replays emptyRefsRun) = [(''f'', Ok ())]
   \<and> returned emptyRefsRun = Ok ()"
  by code_simp

subsection \<open>C6: the unresolved-parent counter after graph construction\<close>

text \<open>
  Claim C6, as amended. After graph construction, for every object of the archive with
  an owner-reference list, the counter of the object is the number of entries of that
  list: every entry counts one, also a repeated parent and a parent whose sourcePath is
  no file of the archive.
\<close>

theorem counter_counts_every_entry:
  assumes "generateDependencyGraph sys rfg backupPath transformers emptyGraph = Ok g"
      and "distinct (map ResourceConfigPath (archiveObjects sys transformers backupPath))"
      and "obj \<in> set (archiveObjects sys transformers backupPath)"
      and "ownerRefsOf obj = Some ownerRefs"
  shows "numOwnerReferences g (ResourceConfigPath obj) = Some (int (length ownerRefs))"
  using foldObjects_counter[OF generate_as_fold[OF assms(1)] assms(2,3,4)] .

theorem counter_counts_every_entry_witness:
  "distinct (map ResourceConfigPath (archiveObjects exSys noTransformers ''/b''))
   \<and> exB \<in> set (archiveObjects exSys noTransformers ''/b'')
   \<and> numOwnerReferences exGraph ''/b/bs.g#v1/ns1/b.json'' = Some 1"
proof -
  from counter_counts_every_entry[OF exGraph_built exArchive_distinct exB_in_archive exB_ownerRefs]
  have "numOwnerReferences exGraph ''/b/bs.g#v1/ns1/b.json'' = Some 1"
    by (simp add: exB_def)
  with exArchive_distinct exB_in_archive show ?thesis by blast
qed

text \<open>
  The claim as stated fails on the example archive: \<open>x\<close> names the single parent \<open>z\<close>,
  which is no file of the archive, so the specification's count is 0, and the counter
  the builder sets is 1.
\<close>

theorem counter_missing_parent_counterexample:
  "exX \<in> set (archiveObjects exSys noTransformers ''/b'')
   \<and> ownerPaths exMapping ''/b'' exX = [''/b/as.g#v1/z.json'']
   \<and> ReadFile exSys ''/b/as.g#v1/z.json'' = Inl (PathNotExist ''/b/as.g#v1/z.json'')
   \<and> claimedUnresolvedParents exSys exMapping ''/b'' Map.empty exX = 0
   \<and> lookupInt (numOwnerReferences exGraph) (ResourceConfigPath exX) = 1
   \<and> lookupInt (numOwnerReferences exGraph) (ResourceConfigPath exX)
       \<noteq> claimedUnresolvedParents exSys exMapping ''/b'' Map.empty exX"
  by code_simp

subsection \<open>C7: a failed apply and the handler\<close>

text \<open>
  Claim C7 says that a per-object apply failure does not abort the replay and that the
  composite error is returned to the caller rather than terminating the process. On the
  example archive with a cluster that refuses \<open>a\<close>: the replay records the error and goes
  on to apply \<open>c\<close>, and the handler, having removed the extraction directory, panics with
  the composite error instead of returning it.
\<close>

theorem apply_failure_panics_handler:
  "outcomes (replays rejectRun) = [(''a'', Error (ErrorString ''rejected'')), (''c'', Ok ())]
   \<and> returned rejectRun = Panic (PanicError (Aggregate [ErrorString ''rejected'']))
   \<and> fsEvents rejectRun = [RemoveAllEv ''/b'']"
  by code_simp

subsection \<open>C8: the extraction directory on an early exit\<close>

text \<open>
  Claim C8 says that every exit path attempts to remove the temporary extraction
  directory. For a restore request without a storage location the directory has been
  made, the handler returns the error, and no removal is attempted.
\<close>

theorem missing_location_keeps_directory:
  "TempDir exSys (TrimSuffix (BackupFilename exSpec) ''.tar.gz'') = Inr ''/b''
   \<and> returned noLocationRun = Error (ErrorString ''Specify backup location during restore'')
   \<and> fsEvents noLocationRun = []"
  by code_simp

subsection \<open>C9: an empty archive\<close>

text \<open>
  Claim C9, as amended. Restoring from an empty archive (neither definition directory
  exists and \<open>filters/statussubresource.json\<close> cannot be read) applies no object and is
  not a success: once the archive is unpacked and the encryption configuration is read,
  the handler asks for the removal of the extraction path, which is the path of the
  temporary directory less a trailing \<open>.tar.gz\<close> (line 141), and returns the error of
  reading the status file (joined with the removal's error, should the removal fail
  too).
\<close>

theorem empty_archive_returns_read_error:
  assumes "fetchBackup sys ops spec = (Ok tempPath, evs)"
      and "backupPath = TrimSuffix tempPath ''.tar.gz''"
      and "GetEncryptionConfig ops c ''default'' (EncryptionConfigName spec) = Inr config"
      and "GetEncryptionTransformers ops config = Inr transformers"
      and "\<forall>resourceGVK \<in> set crdDirectories.
             \<exists>notExist. Stat sys (Join [backupPath, resourceGVK]) = Some notExist
                         \<and> IsNotExist notExist"
      and "ReadFile sys (Join [backupPath, ''filters'', ''statussubresource.json'']) = Inl err"
  shows "OnRestoreChange sys api ops c spec =
           \<lparr>returned = (case RemoveAll sys backupPath of
                          Some removeDirErr \<Rightarrow> Error (errorsNew2 err removeDirErr)
                        | None \<Rightarrow> Error err),
            fsEvents = evs @ [RemoveAllEv backupPath],
            installs = [], replays = [], endCluster = c\<rparr>"
proof -
  have crd: "restoreCRDs sys api backupPath transformers Map.empty c = (Ok (), Map.empty, c, [])"
    unfolding restoreCRDs_def using assms(5) by (rule crdDirsLoop_absent)
  have st: "findResourcesWithStatusSubresource sys backupPath = Error err"
    using assms(6) by (simp add: findResourcesWithStatusSubresource_def)
  have "restoreArchive sys api ops c spec backupPath transformers =
          \<lparr>returned = removeDirAndReturn sys backupPath err,
           fsEvents = [RemoveAllEv backupPath], installs = [], replays = [], endCluster = c\<rparr>"
    by (simp add: restoreArchive_def crd st)
  with assms(1,2,3,4) show ?thesis
    by (simp add: OnRestoreChange_def removeDirAndReturn_def)
qed

theorem empty_archive_returns_read_error_witness:
  "fetchBackup emptySys exOps exSpec = (Ok ''/b'', [])
   \<and> ReadFile emptySys (Join [''/b'', ''filters'', ''statussubresource.json''])
       = Inl (PathNotExist ''/b/filters/statussubresource.json'')
   \<and> OnRestoreChange emptySys (memApi exMapping []) exOps [] exSpec =
         \<lparr>returned = Error (PathNotExist ''/b/filters/statussubresource.json''),
          fsEvents = [RemoveAllEv ''/b''], installs = [], replays = [], endCluster = []\<rparr>"
proof -
  have f: "fetchBackup emptySys exOps exSpec = (Ok ''/b'', [])" by code_simp
  have b: "''/b'' = TrimSuffix ''/b'' ''.tar.gz''" by code_simp
  have e: "GetEncryptionConfig exOps [] ''default'' (EncryptionConfigName exSpec) = Inr ''config''"
    by (simp add: exOps_def)
  have t: "GetEncryptionTransformers exOps ''config'' = Inr noTransformers"
    by (simp add: exOps_def)
  have s: "\<forall>resourceGVK \<in> set crdDirectories.
             \<exists>notExist. Stat emptySys (Join [''/b'', resourceGVK]) = Some notExist
                         \<and> IsNotExist notExist"
    by (simp add: crdDirectories_def emptySys_def memSys_def join_crd_v1 join_crd_v1beta1)
  have r: "ReadFile emptySys (Join [''/b'', ''filters'', ''statussubresource.json''])
       = Inl (PathNotExist ''/b/filters/statussubresource.json'')"
    by (simp add: join_status_file emptySys_def memSys_def)
  have rm: "RemoveAll emptySys ''/b'' = None" by (simp add: emptySys_def memSys_def)
  from empty_archive_returns_read_error[where api = "memApi exMapping []", OF f b e t s r] rm f r
  show ?thesis by simp
qed

text \<open>
  The claim as stated fails on the archive with nothing in it: the handler returns the
  read error, not success.
\<close>

theorem empty_archive_counterexample:
  "ReadDir emptySys ''/b'' = Inr []
   \<and> returned (OnRestoreChange emptySys (memApi exMapping []) exOps [] exSpec)
       = Error (PathNotExist ''/b/filters/statussubresource.json'')
   \<and> returned (OnRestoreChange emptySys (memApi exMapping []) exOps [] exSpec) \<noteq> Ok ()"
  by code_simp

subsection \<open>C10: an owner reference lacking a string panics\<close>

text \<open>
  Claim C10. Graph construction is total only for well-formed owner references. When
  the owner-reference list of an archived object has a map entry that lacks a string
  the builder reads with a one-result type assertion -- the \<open>apiVersion\<close>; or the \<open>kind\<close>
  when the version parses; or the \<open>name\<close> when the REST mapping also resolves the kind --
  and the entries before it are processed without error, then
  \<open>addToOwnersToDependentsList\<close> panics: the entry is neither skipped nor reported as an
  error. The witness also runs the whole handler on such an archive: it ends in the
  same panic, and the extraction directory is not removed.
\<close>

theorem malformed_owner_reference_panics:
  assumes "readRestoreObj sys resConfigPath additionalAuthenticatedData gvr' decryptionTransformer
             = Ok (Some currRestoreObj)"
      and "ownerRefsOf currRestoreObj = Some (before @ JObj ownerRefData # after)"
      and "ownersLoop rfg backupPath currRestoreObj before (ownerToDependentsList g) 0
             = Ok (deps, n)"
      and "assertString (mapIndex ownerRefData ''apiVersion'') = None
           \<or> (\<exists>groupVersion gv.
                 assertString (mapIndex ownerRefData ''apiVersion'') = Some groupVersion
                 \<and> ParseGroupVersion groupVersion = Inr gv
                 \<and> (assertString (mapIndex ownerRefData ''kind'') = None
                      \<or> (\<exists>kind found.
                            assertString (mapIndex ownerRefData ''kind'') = Some kind
                            \<and> rfg \<lparr>kindGroup = fst gv, kindVersion = snd gv, Kind = kind\<rparr>
                                = Inr found
                            \<and> assertString (mapIndex ownerRefData ''name'') = None)))"
  shows "addToOwnersToDependentsList sys rfg backupPath resConfigPath additionalAuthenticatedData
           gvr' decryptionTransformer g = Panic TypeAssertionFailed"
proof -
  have "ownerRestoreObj rfg backupPath currRestoreObj ownerRefData = Panic TypeAssertionFailed"
    using assms(4) by (rule malformed_ownerRestoreObj)
  then have "ownersLoop rfg backupPath currRestoreObj (JObj ownerRefData # after) deps n
             = Panic TypeAssertionFailed"
    by simp
  with assms(3)
  have "ownersLoop rfg backupPath currRestoreObj (before @ JObj ownerRefData # after)
          (ownerToDependentsList g) 0 = Panic TypeAssertionFailed"
    by (simp add: ownersLoop_append bindR_def)
  with assms(2) have "addRestoreObj rfg backupPath currRestoreObj g = Panic TypeAssertionFailed"
    by (simp add: addRestoreObj_def bindR_def)
  with assms(1) show ?thesis
    by (simp add: addToOwnersToDependentsList_def bindR_def)
qed

theorem malformed_owner_reference_panics_witness:
  "readRestoreObj badSys ''/b/bs.g#v1/bad.json'' ''bad''
       \<lparr>Group = ''g'', Version = ''v1'', Resource = ''bs''\<rparr> None = Ok (Some exBad)
   \<and> ownerRefsOf exBad = Some [JObj [(''kind'', JStr ''A''), (''name'', JStr ''a'')]]
   \<and> addToOwnersToDependentsList badSys exMapping ''/b'' ''/b/bs.g#v1/bad.json'' ''bad''
        \<lparr>Group = ''g'', Version = ''v1'', Resource = ''bs''\<rparr> None emptyGraph
       = Panic TypeAssertionFailed
   \<and> returned (OnRestoreChange badSys (memApi exMapping []) exOps [] exSpec)
       = Panic TypeAssertionFailed
   \<and> fsEvents (OnRestoreChange badSys (memApi exMapping []) exOps [] exSpec) = []"
proof -
  let ?d = "[(''kind'', JStr ''A''), (''name'', JStr ''a'')]"
  have r: "readRestoreObj badSys ''/b/bs.g#v1/bad.json'' ''bad''
       \<lparr>Group = ''g'', Version = ''v1'', Resource = ''bs''\<rparr> None = Ok (Some exBad)"
    by code_simp
  have o: "ownerRefsOf exBad = Some ([] @ JObj ?d # [])" by code_simp
  have l: "ownersLoop exMapping ''/b'' exBad [] (ownerToDependentsList emptyGraph) 0
           = Ok (ownerToDependentsList emptyGraph, 0)"
    by simp
  have m: "assertString (mapIndex ?d ''apiVersion'') = None" by code_simp
  have run: "returned (OnRestoreChange badSys (memApi exMapping []) exOps [] exSpec)
               = Panic TypeAssertionFailed
             \<and> fsEvents (OnRestoreChange badSys (memApi exMapping []) exOps [] exSpec) = []"
    by code_simp
  from malformed_owner_reference_panics[where rfg = exMapping, OF r o l disjI1[OF m]] r o run
  show ?thesis by simp
qed

section \<open>Further properties\<close>

subsection \<open>The replay drains the queue and aggregates the errors\<close>

text \<open>
  Whatever graph, created map and cluster \<open>createFromDependencyGraph\<close> starts from: if no
  apply panicked, the loop has emptied the ready queue, and the result is \<open>util.ErrList\<close>
  of the errors of the failed applies, in the order of the attempts. A failed apply
  therefore never ends the replay early.
\<close>

theorem replay_drains_and_aggregates:
  assumes "createFromDependencyGraph api c deps createdMap num queue sset = (r, st)"
      and "\<not> list_ex panicked (attempts st)"
  shows "toRestore (graphOf st) = [] \<and> r = ErrList (errorsOf (attempts st))"
proof -
  let ?st0 = "\<lparr>graphOf = \<lparr>ownerToDependentsList = deps, toRestore = queue,
                            numOwnerReferences = num\<rparr>,
               created = createdMap, errList = [], countRestored = 0,
               cluster = c, attempts = []\<rparr>"
  obtain po where l: "createLoop api sset ?st0 = (st, po)"
    using assms(1) by (auto simp add: createFromDependencyGraph_def split: prod.splits option.splits)
  have e: "errList st = errorsOf (attempts st)"
    by (rule createLoop_errors[OF _ l]) simp
  have "if list_ex panicked (attempts st) then po \<noteq> None
        else po = None \<and> toRestore (graphOf st) = []"
    by (rule createLoop_drains[OF _ l]) simp
  with assms(2) have po: "po = None" and q: "toRestore (graphOf st) = []" by simp_all
  from assms(1) l po have "r = ErrList (errList st)"
    by (simp add: createFromDependencyGraph_def)
  with e q show ?thesis by simp
qed

theorem replay_drains_and_aggregates_witness:
  "\<not> list_ex panicked (attempts (snd exRejectReplay))
   \<and> outcomes (attempts (snd exRejectReplay))
       = [(''a'', Error (ErrorString ''rejected'')), (''c'', Ok ())]
   \<and> toRestore (graphOf (snd exRejectReplay)) = []
   \<and> fst exRejectReplay = Error (Aggregate [ErrorString ''rejected''])"
proof -
  have run: "createFromDependencyGraph (memApi exMapping [''a'']) []
                      (ownerToDependentsList exGraph) Map.empty (numOwnerReferences exGraph)
                      (toRestore exGraph) exStatusSet = (fst exRejectReplay, snd exRejectReplay)"
    by (simp add: exRejectReplay_def)
  have np: "\<not> list_ex panicked (attempts (snd exRejectReplay))" by code_simp
  have o: "outcomes (attempts (snd exRejectReplay))
       = [(''a'', Error (ErrorString ''rejected'')), (''c'', Ok ())]" by code_simp
  have e: "ErrList (errorsOf (attempts (snd exRejectReplay)))
           = Error (Aggregate [ErrorString ''rejected''])" by code_simp
  from replay_drains_and_aggregates[OF run np] np o e show ?thesis by simp
qed

subsection \<open>getGVR reads the directory names of the archive\<close>

text \<open>
  For a resource without a dot or hash, and a group and version without a hash,
  \<open>getGVR\<close> reads the directory name \<open><resource>.<group>#<version>\<close> back into the three
  parts; with an empty group the name is \<open><resource>.#<version>\<close>.
\<close>

theorem getGVR_directory_name:
  assumes "CHR ''.'' \<notin> set resource" and "CHR ''#'' \<notin> set resource"
      and "CHR ''#'' \<notin> set apiGroup" and "CHR ''#'' \<notin> set version"
  shows "getGVR (resource @ ''.'' @ apiGroup @ ''#'' @ version)
           = Ok \<lparr>Group = apiGroup, Version = version, Resource = resource\<rparr>"
proof -
  have s: "splitOn (CHR ''#'') ((resource @ ''.'' @ apiGroup) @ CHR ''#'' # version)
           = [resource @ ''.'' @ apiGroup, version]"
    by (rule splitOn_two) (use assms in simp_all)
  have n: "SplitN2 (CHR ''.'') (resource @ CHR ''.'' # apiGroup) = [resource, apiGroup]"
    by (rule SplitN2_first) (use assms in simp)
  from s n TrimSuffix_no_dot[OF assms(1)] ParseGroupResource_joined[OF assms(1), of apiGroup]
  show ?thesis by (simp add: getGVR_def Let_def)
qed

theorem getGVR_directory_name_witness:
  "getGVR ''catalogs.management.cattle.io#v3''
     = Ok \<lparr>Group = ''management.cattle.io'', Version = ''v3'', Resource = ''catalogs''\<rparr>
   \<and> getGVR ''namespaces.#v1'' = Ok \<lparr>Group = [], Version = ''v1'', Resource = ''namespaces''\<rparr>"
proof -
  have a: "getGVR (''catalogs'' @ ''.'' @ ''management.cattle.io'' @ ''#'' @ ''v3'')
     = Ok \<lparr>Group = ''management.cattle.io'', Version = ''v3'', Resource = ''catalogs''\<rparr>"
    by (rule getGVR_directory_name) simp_all
  have b: "getGVR (''namespaces'' @ ''.'' @ [] @ ''#'' @ ''v1'')
     = Ok \<lparr>Group = [], Version = ''v1'', Resource = ''namespaces''\<rparr>"
    by (rule getGVR_directory_name) simp_all
  from a b show ?thesis by simp
qed

end
